theory Spec2Isabelle
  imports Main "HOL-Library.Monad_Syntax" "HOL-Library.Multiset"
begin

section \<open>Entity model (SocialGraph.h)\<close>

text \<open>A Node holds a name; \<open>operator==\<close> compares names, which is the equality of the
  datatype. An Edge holds two Nodes.\<close>

datatype Node = Node (getName: string)

datatype Edge = Edge (getFirstNode: Node) (getSecondNode: Node)

definition connects :: "Edge \<Rightarrow> Node \<Rightarrow> Node \<Rightarrow> bool" where
  "connects e a b \<longleftrightarrow>
     (getFirstNode e = a \<and> getSecondNode e = b) \<or> (getFirstNode e = b \<and> getSecondNode e = a)"

record SocialGraph =
  nodes :: "Node list"
  edgeList :: "Edge list"

definition empty_graph :: SocialGraph where
  "empty_graph = \<lparr>nodes = [], edgeList = []\<rparr>"

section \<open>Graph store (SocialGraph.cpp)\<close>

definition nodeExists :: "SocialGraph \<Rightarrow> Node \<Rightarrow> bool" where
  "nodeExists g node \<longleftrightarrow> find (\<lambda>n. n = node) (nodes g) \<noteq> None"

definition addPerson :: "SocialGraph \<Rightarrow> string \<Rightarrow> SocialGraph" where
  "addPerson g name =
     (let newNode = Node name
      in if \<not> nodeExists g newNode then g\<lparr>nodes := nodes g @ [newNode]\<rparr> else g)"

text \<open>\<open>removePerson\<close> returns its boolean together with the new store.
  \<open>erase(remove_if(..., pred), end)\<close> keeps, in order, the elements that fail \<open>pred\<close>.\<close>

definition removePerson :: "SocialGraph \<Rightarrow> string \<Rightarrow> bool \<times> SocialGraph" where
  "removePerson g name =
     (let nodeToRemove = Node name
      in if \<not> nodeExists g nodeToRemove then (False, g)
         else (True,
               g\<lparr>edgeList := filter (\<lambda>edge. \<not> (getFirstNode edge = nodeToRemove
                                              \<or> getSecondNode edge = nodeToRemove)) (edgeList g),
                 nodes := filter (\<lambda>n. n \<noteq> nodeToRemove) (nodes g)\<rparr>))"

definition addFriend :: "SocialGraph \<Rightarrow> string \<Rightarrow> string \<Rightarrow> SocialGraph" where
  "addFriend g name1 name2 =
     (let node1 = Node name1; node2 = Node name2
      in if nodeExists g node1 \<and> nodeExists g node2 \<and> name1 \<noteq> name2
         then (let alreadyFriends = list_ex (\<lambda>edge. connects edge node1 node2) (edgeList g)
               in if \<not> alreadyFriends then g\<lparr>edgeList := edgeList g @ [Edge node1 node2]\<rparr>
                  else g)
         else g)"

definition removeFriend :: "SocialGraph \<Rightarrow> string \<Rightarrow> string \<Rightarrow> SocialGraph" where
  "removeFriend g name1 name2 =
     (let node1 = Node name1; node2 = Node name2
      in g\<lparr>edgeList := filter (\<lambda>edge. \<not> connects edge node1 node2) (edgeList g)\<rparr>)"

definition areConnected :: "SocialGraph \<Rightarrow> string \<Rightarrow> string \<Rightarrow> bool" where
  "areConnected g name1 name2 =
     (let node1 = Node name1; node2 = Node name2
      in list_ex (\<lambda>edge. connects edge node1 node2) (edgeList g))"

text \<open>The loop of \<open>getFriends\<close> over the edge list, pushing onto \<open>friends\<close>.\<close>

fun getFriends_loop :: "Edge list \<Rightarrow> Node \<Rightarrow> Node list \<Rightarrow> Node list" where
  "getFriends_loop [] node friends = friends"
| "getFriends_loop (edge # es) node friends =
     (if getFirstNode edge = node then getFriends_loop es node (friends @ [getSecondNode edge])
      else if getSecondNode edge = node then getFriends_loop es node (friends @ [getFirstNode edge])
      else getFriends_loop es node friends)"

definition getFriends :: "SocialGraph \<Rightarrow> Node \<Rightarrow> Node list" where
  "getFriends g node = getFriends_loop (edgeList g) node []"


section \<open>Path search (SocialGraph.cpp)\<close>

text \<open>Indices are C++ \<open>int\<close>s, with \<open>-1\<close> for "none". Reading or writing a vector outside
  its range is undefined behaviour; the model gives such a call no result (\<open>None\<close>). The same
  \<open>None\<close> stands for a loop that does not return.\<close>

definition INT_MAX :: int where
  "INT_MAX = 2147483647"

definition vec_at :: "'a list \<Rightarrow> int \<Rightarrow> 'a option" where
  "vec_at xs i = (if 0 \<le> i \<and> i < int (length xs) then Some (xs ! nat i) else None)"

definition vec_set :: "'a list \<Rightarrow> int \<Rightarrow> 'a \<Rightarrow> 'a list option" where
  "vec_set xs i v = (if 0 \<le> i \<and> i < int (length xs) then Some (xs[nat i := v]) else None)"

text \<open>The loop that looks for \<open>start_index\<close> and \<open>end_index\<close>: it runs over the nodes from
  index \<open>i\<close> on, and stops as soon as both are set.\<close>

fun find_endpoints :: "Node list \<Rightarrow> Node \<Rightarrow> Node \<Rightarrow> int \<Rightarrow> int \<Rightarrow> int \<Rightarrow> int \<times> int" where
  "find_endpoints [] start end_node i start_index end_index = (start_index, end_index)"
| "find_endpoints (n # rest) start end_node i start_index end_index =
     (let start_index = (if n = start then i else start_index);
          end_index = (if n = end_node then i else end_index)
      in if start_index \<noteq> -1 \<and> end_index \<noteq> -1 then (start_index, end_index)
         else find_endpoints rest start end_node (i + 1) start_index end_index)"

text \<open>The loop that maps a neighbor back to its index: the first position, from \<open>j\<close> on,
  holding an equal node, or \<open>-1\<close>.\<close>

fun find_index :: "Node list \<Rightarrow> Node \<Rightarrow> int \<Rightarrow> int" where
  "find_index [] x j = -1"
| "find_index (n # rest) x j = (if n = x then j else find_index rest x (j + 1))"

text \<open>The inner loop of \<open>shortestPath\<close> over the neighbors of \<open>current\<close>. The queue is a
  list: \<open>push\<close> appends, \<open>front\<close>/\<open>pop\<close> take the head. \<open>distance[current] + 1\<close> on
  \<open>INT_MAX\<close> would overflow a signed \<open>int\<close>, which is undefined as well.\<close>

fun visit_neighbors ::
  "Node list \<Rightarrow> Node list \<Rightarrow> int \<Rightarrow> int list \<Rightarrow> int list \<Rightarrow> int list
     \<Rightarrow> (int list \<times> int list \<times> int list) option" where
  "visit_neighbors ns [] current parent distance q = Some (parent, distance, q)"
| "visit_neighbors ns (nb # neighbors) current parent distance q =
     (let neighbor_index = find_index ns nb 0
      in do {
        d \<leftarrow> vec_at distance neighbor_index;
        if d = INT_MAX then do {
          dc \<leftarrow> vec_at distance current;
          distance' \<leftarrow> (if dc = INT_MAX then None else vec_set distance neighbor_index (dc + 1));
          parent' \<leftarrow> vec_set parent neighbor_index current;
          visit_neighbors ns neighbors current parent' distance' (q @ [neighbor_index])
        } else visit_neighbors ns neighbors current parent distance q
      })"

text \<open>The \<open>while (!q.empty() && !found)\<close> loop; it returns \<open>found\<close> and the parent vector.\<close>

partial_function (option) bfs_loop ::
  "SocialGraph \<Rightarrow> int \<Rightarrow> int list \<Rightarrow> int list \<Rightarrow> int list \<Rightarrow> (bool \<times> int list) option" where
  "bfs_loop g end_index parent distance q =
     (case q of
        [] \<Rightarrow> Some (False, parent)
      | current # q' \<Rightarrow>
          if current = end_index then Some (True, parent)
          else do {
            node \<leftarrow> vec_at (nodes g) current;
            (parent', distance', q'') \<leftarrow>
               visit_neighbors (nodes g) (getFriends g node) current parent distance q';
            bfs_loop g end_index parent' distance' q''
          })"

declare bfs_loop.simps [code]

text \<open>The reconstruction loop \<open>for (v = end_index; v != -1; v = parent[v])\<close>.\<close>

partial_function (option) follow_parents :: "int list \<Rightarrow> int \<Rightarrow> int list \<Rightarrow> int list option" where
  "follow_parents parent v index_path =
     (if v = -1 then Some index_path
      else do {
        v' \<leftarrow> vec_at parent v;
        follow_parents parent v' (index_path @ [v])
      })"

declare follow_parents.simps [code]

fun path_names :: "Node list \<Rightarrow> int list \<Rightarrow> string list option" where
  "path_names ns [] = Some []"
| "path_names ns (i # index_path) =
     do {
       n \<leftarrow> vec_at ns i;
       rest \<leftarrow> path_names ns index_path;
       Some (getName n # rest)
     }"

definition shortestPath :: "SocialGraph \<Rightarrow> string \<Rightarrow> string \<Rightarrow> string list option" where
  "shortestPath g from to =
     (let start = Node from; end_node = Node to
      in if \<not> nodeExists g start \<or> \<not> nodeExists g end_node then Some []
         else do {
           let (start_index, end_index) = find_endpoints (nodes g) start end_node 0 (-1) (-1);
           let parent = replicate (length (nodes g)) (-1);
           let distance = replicate (length (nodes g)) INT_MAX;
           parent \<leftarrow> vec_set parent start_index (-1);
           distance \<leftarrow> vec_set distance start_index 0;
           (found, parent) \<leftarrow> bfs_loop g end_index parent distance [start_index];
           if found then do {
             index_path \<leftarrow> follow_parents parent end_index [];
             path_names (nodes g) (rev index_path)
           } else Some []
         })"

text \<open>\<open>shortestPathAvoiding\<close>: the blacklist is turned into indices (names that are not in
  the store add nothing), and the inner loop skips a neighbor whose index is among them.\<close>

fun blacklist_indices :: "Node list \<Rightarrow> string list \<Rightarrow> int list \<Rightarrow> int list" where
  "blacklist_indices ns [] blacklistIndices = blacklistIndices"
| "blacklist_indices ns (name # blacklist) blacklistIndices =
     (let i = find_index ns (Node name) 0
      in blacklist_indices ns blacklist
           (if i \<noteq> -1 then blacklistIndices @ [i] else blacklistIndices))"

fun visit_neighbors_avoiding ::
  "Node list \<Rightarrow> int list \<Rightarrow> Node list \<Rightarrow> int \<Rightarrow> int list \<Rightarrow> bool list \<Rightarrow> int list
     \<Rightarrow> (int list \<times> bool list \<times> int list) option" where
  "visit_neighbors_avoiding ns blacklistIndices [] current parent visited q =
     Some (parent, visited, q)"
| "visit_neighbors_avoiding ns blacklistIndices (nb # neighbors) current parent visited q =
     (let neighbor_index = find_index ns nb 0;
          isBlacklisted = list_ex (\<lambda>blackIndex. neighbor_index = blackIndex) blacklistIndices
      in if isBlacklisted
         then visit_neighbors_avoiding ns blacklistIndices neighbors current parent visited q
         else do {
           seen \<leftarrow> vec_at visited neighbor_index;
           if \<not> seen then do {
             visited' \<leftarrow> vec_set visited neighbor_index True;
             parent' \<leftarrow> vec_set parent neighbor_index current;
             visit_neighbors_avoiding ns blacklistIndices neighbors current parent' visited'
               (q @ [neighbor_index])
           } else visit_neighbors_avoiding ns blacklistIndices neighbors current parent visited q
         })"

partial_function (option) bfs_loop_avoiding ::
  "SocialGraph \<Rightarrow> int list \<Rightarrow> int \<Rightarrow> int list \<Rightarrow> bool list \<Rightarrow> int list
     \<Rightarrow> (bool \<times> int list) option" where
  "bfs_loop_avoiding g blacklistIndices end_index parent visited q =
     (case q of
        [] \<Rightarrow> Some (False, parent)
      | current # q' \<Rightarrow>
          if current = end_index then Some (True, parent)
          else do {
            node \<leftarrow> vec_at (nodes g) current;
            (parent', visited', q'') \<leftarrow>
               visit_neighbors_avoiding (nodes g) blacklistIndices (getFriends g node) current
                 parent visited q';
            bfs_loop_avoiding g blacklistIndices end_index parent' visited' q''
          })"

declare bfs_loop_avoiding.simps [code]

definition shortestPathAvoiding ::
  "SocialGraph \<Rightarrow> string \<Rightarrow> string \<Rightarrow> string list \<Rightarrow> string list option" where
  "shortestPathAvoiding g from to blacklist =
     (let start = Node from; end_node = Node to
      in if \<not> nodeExists g start \<or> \<not> nodeExists g end_node then Some []
         else do {
           let (start_index, end_index) = find_endpoints (nodes g) start end_node 0 (-1) (-1);
           let blacklistIndices = blacklist_indices (nodes g) blacklist [];
           let parent = replicate (length (nodes g)) (-1);
           let visited = replicate (length (nodes g)) False;
           parent \<leftarrow> vec_set parent start_index (-1);
           visited \<leftarrow> vec_set visited start_index True;
           (found, parent) \<leftarrow>
              bfs_loop_avoiding g blacklistIndices end_index parent visited [start_index];
           if found then do {
             index_path \<leftarrow> follow_parents parent end_index [];
             path_names (nodes g) (rev index_path)
           } else Some []
         })"

section \<open>Recommendation ranker (SocialGraph.cpp)\<close>

text \<open>\<open>countMutualFriends\<close>: for each friend of \<open>a\<close>, the inner loop looks for an equal
  friend of \<open>b\<close> and counts one when it finds it (\<open>cnt\<close> is the source's \<open>count\<close>).\<close>

fun countMutualFriends_loop :: "Node list \<Rightarrow> Node list \<Rightarrow> int \<Rightarrow> int" where
  "countMutualFriends_loop [] bFriends cnt = cnt"
| "countMutualFriends_loop (aFriend # aFriends) bFriends cnt =
     countMutualFriends_loop aFriends bFriends
       (if list_ex (\<lambda>bFriend. aFriend = bFriend) bFriends then cnt + 1 else cnt)"

definition countMutualFriends :: "SocialGraph \<Rightarrow> Node \<Rightarrow> Node \<Rightarrow> int" where
  "countMutualFriends g a b =
     (let aFriends = getFriends g a; bFriends = getFriends g b
      in countMutualFriends_loop aFriends bFriends 0)"

text \<open>The loop of \<open>recommendFriends\<close> over the nodes, collecting the candidates.\<close>

fun potentialFriends_loop ::
  "SocialGraph \<Rightarrow> Node \<Rightarrow> Node list \<Rightarrow> Node list \<Rightarrow> (Node \<times> int) list \<Rightarrow> (Node \<times> int) list" where
  "potentialFriends_loop g source currentFriends [] potentialFriends = potentialFriends"
| "potentialFriends_loop g source currentFriends (node # rest) potentialFriends =
     (if node = source then potentialFriends_loop g source currentFriends rest potentialFriends
      else
        let isAlreadyFriend = list_ex (\<lambda>friendNode. node = friendNode) currentFriends
        in if \<not> isAlreadyFriend
           then (let mutualCount = countMutualFriends g source node
                 in if mutualCount > 0
                    then potentialFriends_loop g source currentFriends rest
                           (potentialFriends @ [(node, mutualCount)])
                    else potentialFriends_loop g source currentFriends rest potentialFriends)
           else potentialFriends_loop g source currentFriends rest potentialFriends)"

text \<open>The comparator handed to \<open>std::sort\<close>.\<close>

definition more_mutual :: "Node \<times> int \<Rightarrow> Node \<times> int \<Rightarrow> bool" where
  "more_mutual a b \<longleftrightarrow> snd a > snd b"

text \<open>\<open>std::sort\<close> is library code. It is a parameter of the model, constrained by what the
  C++ standard promises of it: for a comparator that is a strict weak ordering, the result
  is a permutation of the input in which no element is followed by one that compares less.
  The order of equivalent elements is not promised.\<close>

definition strict_weak_order :: "('a \<Rightarrow> 'a \<Rightarrow> bool) \<Rightarrow> bool" where
  "strict_weak_order cmp \<longleftrightarrow>
     (\<forall>a. \<not> cmp a a) \<and>
     (\<forall>a b c. cmp a b \<and> cmp b c \<longrightarrow> cmp a c) \<and>
     (\<forall>a b c. \<not> cmp a b \<and> \<not> cmp b a \<and> \<not> cmp b c \<and> \<not> cmp c b
                \<longrightarrow> \<not> cmp a c \<and> \<not> cmp c a)"

definition std_sort_contract :: "(('a \<Rightarrow> 'a \<Rightarrow> bool) \<Rightarrow> 'a list \<Rightarrow> 'a list) \<Rightarrow> bool" where
  "std_sort_contract srt \<longleftrightarrow>
     (\<forall>cmp xs. strict_weak_order cmp \<longrightarrow>
        mset (srt cmp xs) = mset xs \<and> sorted_wrt (\<lambda>a b. \<not> cmp b a) (srt cmp xs))"

text \<open>The conversions of \<open>k < potentialFriends.size()\<close> and of the initialisation of
  \<open>limit\<close>: an \<open>int\<close> compared with a \<open>size_t\<close> is converted to the unsigned 64-bit type, and
  the \<open>size_t\<close> value of the conditional is narrowed to a 32-bit \<open>int\<close>. Both are
  written out on the mathematical integers.\<close>

definition to_size_t :: "int \<Rightarrow> int" where
  "to_size_t k = k mod 2 ^ 64"

definition to_int :: "int \<Rightarrow> int" where
  "to_int n = (n + 2 ^ 31) mod 2 ^ 32 - 2 ^ 31"

text \<open>The loop \<open>for (int i = 0; i < limit; i++)\<close> that reads \<open>potentialFriends[i]\<close>.\<close>

function top_loop :: "(Node \<times> int) list \<Rightarrow> int \<Rightarrow> int \<Rightarrow> string list \<Rightarrow> string list option" where
  "top_loop potentialFriends limit i recommendations =
     (if i < limit
      then do {
        p \<leftarrow> vec_at potentialFriends i;
        top_loop potentialFriends limit (i + 1) (recommendations @ [getName (fst p)])
      }
      else Some recommendations)"
  by pat_completeness auto
termination
  by (relation "measure (\<lambda>(potentialFriends, limit, i, recommendations). nat (limit - i))") auto

definition recommendFriends ::
  "((Node \<times> int \<Rightarrow> Node \<times> int \<Rightarrow> bool) \<Rightarrow> (Node \<times> int) list \<Rightarrow> (Node \<times> int) list)
     \<Rightarrow> SocialGraph \<Rightarrow> string \<Rightarrow> int \<Rightarrow> string list option" where
  "recommendFriends std_sort g name k =
     (let source = Node name
      in if \<not> nodeExists g source then Some []
         else
           let currentFriends = getFriends g source;
               potentialFriends = potentialFriends_loop g source currentFriends (nodes g) [];
               potentialFriends = std_sort more_mutual potentialFriends;
               limit = to_int (if to_size_t k < int (length potentialFriends)
                               then to_size_t k else int (length potentialFriends))
           in top_loop potentialFriends limit 0 [])"

section \<open>Textual persistence (SocialGraph.cpp)\<close>

text \<open>The file is modelled by its contents, a string; the calls are the ones on a file that
  opens. \<open>saveToFile\<close> writes one line per node: the name, a colon and a space, the names of
  the friends with a space between two of them, and a newline.\<close>

definition newline :: char where
  "newline = CHR 0x0A"

fun write_friends :: "Node list \<Rightarrow> string" where
  "write_friends [] = []"
| "write_friends [f] = getName f"
| "write_friends (f # friends) = getName f @ '' '' @ write_friends friends"

definition write_line :: "SocialGraph \<Rightarrow> Node \<Rightarrow> string" where
  "write_line g current =
     getName current @ '': '' @ write_friends (getFriends g current) @ [newline]"

definition saveToFile :: "SocialGraph \<Rightarrow> string" where
  "saveToFile g = concat (map (write_line g) (nodes g))"

text \<open>\<open>getline\<close> in a loop: the lines of the text, each ended by a newline or by the end of
  the text; nothing is read after a final newline.\<close>

fun getlines :: "string \<Rightarrow> string \<Rightarrow> string list" where
  "getlines line [] = (if line = [] then [] else [line])"
| "getlines line (c # cs) =
     (if c = newline then line # getlines [] cs else getlines (line @ [c]) cs)"

text \<open>\<open>line.find(':')\<close> stored in an \<open>int\<close>: the first position of the character, or \<open>-1\<close>
  (\<open>npos\<close> narrowed).\<close>

fun str_find :: "string \<Rightarrow> char \<Rightarrow> int \<Rightarrow> int" where
  "str_find [] c i = -1"
| "str_find (x # xs) c i = (if x = c then i else str_find xs c (i + 1))"

text \<open>The two \<open>erase\<close> calls remove the leading and the trailing spaces and tabs.\<close>

definition blank :: "char \<Rightarrow> bool" where
  "blank c \<longleftrightarrow> c = CHR '' '' \<or> c = CHR 0x09"

definition trim :: "string \<Rightarrow> string" where
  "trim s = rev (dropWhile blank (rev (dropWhile blank s)))"

text \<open>\<open>iss >> neighbor\<close> in a loop: the maximal runs of characters that are not white space
  (\<open>isspace\<close> in the C locale).\<close>

definition isspace :: "char \<Rightarrow> bool" where
  "isspace c \<longleftrightarrow> c \<in> {CHR '' '', CHR 0x09, CHR 0x0A, CHR 0x0B, CHR 0x0C, CHR 0x0D}"

fun tokens :: "string \<Rightarrow> string \<Rightarrow> string list" where
  "tokens tok [] = (if tok = [] then [] else [tok])"
| "tokens tok (c # cs) =
     (if isspace c then (if tok = [] then tokens [] cs else tok # tokens [] cs)
      else tokens (tok @ [c]) cs)"

fun load_neighbors :: "SocialGraph \<Rightarrow> string \<Rightarrow> string list \<Rightarrow> SocialGraph" where
  "load_neighbors g sourceName [] = g"
| "load_neighbors g sourceName (neighbor # rest) =
     load_neighbors (addFriend (addPerson g neighbor) sourceName neighbor) sourceName rest"

text \<open>One line of the file. With no colon, \<open>colonPos\<close> is \<open>-1\<close>: \<open>substr(0, colonPos)\<close> is
  then the whole line (the count is \<open>npos\<close>), and \<open>substr(colonPos + 1)\<close> as well.\<close>

definition load_line :: "SocialGraph \<Rightarrow> string \<Rightarrow> SocialGraph" where
  "load_line g line =
     (let colonPos = str_find line (CHR '':'') 0;
          sourceName = trim (if colonPos = -1 then line else take (nat colonPos) line);
          g = addPerson g sourceName
      in load_neighbors g sourceName (tokens [] (drop (nat (colonPos + 1)) line)))"

fun load_lines :: "SocialGraph \<Rightarrow> string list \<Rightarrow> SocialGraph" where
  "load_lines g [] = g"
| "load_lines g (line # lines) =
     (if line = [] then load_lines g lines else load_lines (load_line g line) lines)"

definition loadFromFile :: "SocialGraph \<Rightarrow> string \<Rightarrow> SocialGraph" where
  "loadFromFile g text = load_lines (g\<lparr>nodes := [], edgeList := []\<rparr>) (getlines [] text)"

section \<open>The \<open>std::sort\<close> of GNU libstdc++\<close>

text \<open>The theorems about \<open>recommendFriends\<close> hold for every function that meets the contract
  of \<open>std::sort\<close>. To run the program on an input, the parameter is instantiated with the
  algorithm of GNU libstdc++ (\<open>bits/stl_algo.h\<close> and \<open>bits/stl_heap.h\<close>), the library that
  \<open>g++\<close> links: an introsort that partitions ranges of more than 16 elements around a
  median of three, falls back to a heap sort when the depth limit is used up, and finishes
  with an insertion sort. Iterators are indices into the vector; a run that reads or writes
  outside the vector, or does not return, has no result (\<open>None\<close>).\<close>

text \<open>C++ integer division truncates towards zero. In the definitions below \<open>last'\<close> is the
  source's \<open>last\<close>.\<close>

definition tdiv :: "int \<Rightarrow> int \<Rightarrow> int" where
  "tdiv a b = (if (a < 0) = (b < 0) then \<bar>a\<bar> div \<bar>b\<bar> else - (\<bar>a\<bar> div \<bar>b\<bar>))"

text \<open>\<open>std::__lg\<close>: the position of the highest set bit.\<close>

fun lg :: "nat \<Rightarrow> nat" where
  "lg n = (if n \<le> 1 then 0 else 1 + lg (n div 2))"

definition iter_swap :: "'a list \<Rightarrow> int \<Rightarrow> int \<Rightarrow> 'a list option" where
  "iter_swap v a b =
     do {
       x \<leftarrow> vec_at v a;
       y \<leftarrow> vec_at v b;
       v \<leftarrow> vec_set v a y;
       vec_set v b x
     }"

text \<open>\<open>__unguarded_linear_insert\<close>: the loop \<open>while (comp(val, next))\<close> moves the elements
  that compare greater than \<open>val\<close> one place up.\<close>

partial_function (option) linear_insert_loop ::
  "('a \<Rightarrow> 'a \<Rightarrow> bool) \<Rightarrow> 'a list \<Rightarrow> 'a \<Rightarrow> int \<Rightarrow> int \<Rightarrow> ('a list \<times> int) option" where
  "linear_insert_loop cmp v val last' next =
     do {
       x \<leftarrow> vec_at v next;
       if cmp val x
       then do {
         v \<leftarrow> vec_set v last' x;
         linear_insert_loop cmp v val next (next - 1)
       }
       else Some (v, last')
     }"

declare linear_insert_loop.simps [code]

definition unguarded_linear_insert :: "('a \<Rightarrow> 'a \<Rightarrow> bool) \<Rightarrow> 'a list \<Rightarrow> int \<Rightarrow> 'a list option" where
  "unguarded_linear_insert cmp v last' =
     do {
       val \<leftarrow> vec_at v last';
       (v, last') \<leftarrow> linear_insert_loop cmp v val last' (last' - 1);
       vec_set v last' val
     }"

text \<open>\<open>std::move_backward(first, last, d_last)\<close>: copies from the back, one element at a
  time.\<close>

partial_function (option) move_backward :: "'a list \<Rightarrow> int \<Rightarrow> int \<Rightarrow> int \<Rightarrow> 'a list option" where
  "move_backward v first last' d_last =
     (if first \<noteq> last'
      then do {
        x \<leftarrow> vec_at v (last' - 1);
        v \<leftarrow> vec_set v (d_last - 1) x;
        move_backward v first (last' - 1) (d_last - 1)
      }
      else Some v)"

declare move_backward.simps [code]

text \<open>\<open>__insertion_sort\<close>: the loop \<open>for (i = first + 1; i != last; ++i)\<close>.\<close>

partial_function (option) insertion_sort_loop ::
  "('a \<Rightarrow> 'a \<Rightarrow> bool) \<Rightarrow> 'a list \<Rightarrow> int \<Rightarrow> int \<Rightarrow> int \<Rightarrow> 'a list option" where
  "insertion_sort_loop cmp v first last' i =
     (if i \<noteq> last'
      then do {
        x \<leftarrow> vec_at v i;
        f \<leftarrow> vec_at v first;
        v \<leftarrow> (if cmp x f
              then do {
                v \<leftarrow> move_backward v first i (i + 1);
                vec_set v first x
              }
              else unguarded_linear_insert cmp v i);
        insertion_sort_loop cmp v first last' (i + 1)
      }
      else Some v)"

declare insertion_sort_loop.simps [code]

definition insertion_sort :: "('a \<Rightarrow> 'a \<Rightarrow> bool) \<Rightarrow> 'a list \<Rightarrow> int \<Rightarrow> int \<Rightarrow> 'a list option" where
  "insertion_sort cmp v first last' =
     (if first = last' then Some v else insertion_sort_loop cmp v first last' (first + 1))"

text \<open>\<open>__unguarded_insertion_sort\<close>: the loop \<open>for (i = first; i != last; ++i)\<close>.\<close>

partial_function (option) unguarded_insertion_sort ::
  "('a \<Rightarrow> 'a \<Rightarrow> bool) \<Rightarrow> 'a list \<Rightarrow> int \<Rightarrow> int \<Rightarrow> 'a list option" where
  "unguarded_insertion_sort cmp v i last' =
     (if i \<noteq> last'
      then do {
        v \<leftarrow> unguarded_linear_insert cmp v i;
        unguarded_insertion_sort cmp v (i + 1) last'
      }
      else Some v)"

declare unguarded_insertion_sort.simps [code]

definition S_threshold :: int where
  "S_threshold = 16"

definition final_insertion_sort :: "('a \<Rightarrow> 'a \<Rightarrow> bool) \<Rightarrow> 'a list \<Rightarrow> int \<Rightarrow> int \<Rightarrow> 'a list option" where
  "final_insertion_sort cmp v first last' =
     (if last' - first > S_threshold
      then do {
        v \<leftarrow> insertion_sort cmp v first (first + S_threshold);
        unguarded_insertion_sort cmp v (first + S_threshold) last'
      }
      else insertion_sort cmp v first last')"

text \<open>\<open>__move_median_to_first\<close>: the median of the elements at \<open>a\<close>, \<open>b\<close> and \<open>c\<close> is swapped
  with the element at \<open>result\<close>. Every branch compares all three.\<close>

definition move_median_to_first ::
  "('a \<Rightarrow> 'a \<Rightarrow> bool) \<Rightarrow> 'a list \<Rightarrow> int \<Rightarrow> int \<Rightarrow> int \<Rightarrow> int \<Rightarrow> 'a list option" where
  "move_median_to_first cmp v result a b c =
     do {
       va \<leftarrow> vec_at v a;
       vb \<leftarrow> vec_at v b;
       vc \<leftarrow> vec_at v c;
       if cmp va vb
       then (if cmp vb vc then iter_swap v result b
             else if cmp va vc then iter_swap v result c
             else iter_swap v result a)
       else if cmp va vc then iter_swap v result a
       else if cmp vb vc then iter_swap v result c
       else iter_swap v result b
     }"

text \<open>\<open>__unguarded_partition\<close>: the two inner loops \<open>while (comp(first, pivot)) ++first\<close> and
  \<open>while (comp(pivot, last)) --last\<close>, and the outer \<open>while (true)\<close>; it returns the vector
  and the cut.\<close>

partial_function (option) skip_less :: "('a \<Rightarrow> 'a \<Rightarrow> bool) \<Rightarrow> 'a list \<Rightarrow> int \<Rightarrow> int \<Rightarrow> int option" where
  "skip_less cmp v first pivot =
     do {
       x \<leftarrow> vec_at v first;
       p \<leftarrow> vec_at v pivot;
       if cmp x p then skip_less cmp v (first + 1) pivot else Some first
     }"

declare skip_less.simps [code]

partial_function (option) skip_greater :: "('a \<Rightarrow> 'a \<Rightarrow> bool) \<Rightarrow> 'a list \<Rightarrow> int \<Rightarrow> int \<Rightarrow> int option" where
  "skip_greater cmp v pivot last' =
     do {
       p \<leftarrow> vec_at v pivot;
       x \<leftarrow> vec_at v last';
       if cmp p x then skip_greater cmp v pivot (last' - 1) else Some last'
     }"

declare skip_greater.simps [code]

partial_function (option) unguarded_partition ::
  "('a \<Rightarrow> 'a \<Rightarrow> bool) \<Rightarrow> 'a list \<Rightarrow> int \<Rightarrow> int \<Rightarrow> int \<Rightarrow> ('a list \<times> int) option" where
  "unguarded_partition cmp v first last' pivot =
     do {
       first \<leftarrow> skip_less cmp v first pivot;
       last' \<leftarrow> skip_greater cmp v pivot (last' - 1);
       if \<not> first < last' then Some (v, first)
       else do {
         v \<leftarrow> iter_swap v first last';
         unguarded_partition cmp v (first + 1) last' pivot
       }
     }"

declare unguarded_partition.simps [code]

definition unguarded_partition_pivot ::
  "('a \<Rightarrow> 'a \<Rightarrow> bool) \<Rightarrow> 'a list \<Rightarrow> int \<Rightarrow> int \<Rightarrow> ('a list \<times> int) option" where
  "unguarded_partition_pivot cmp v first last' =
     (let mid = first + tdiv (last' - first) 2
      in do {
        v \<leftarrow> move_median_to_first cmp v first (first + 1) mid (last' - 1);
        unguarded_partition cmp v (first + 1) last' first
      })"

text \<open>The heap of \<open>bits/stl_heap.h\<close>, on the range that starts at \<open>first\<close>. \<open>__push_heap\<close>:\<close>

partial_function (option) push_heap ::
  "('a \<Rightarrow> 'a \<Rightarrow> bool) \<Rightarrow> 'a list \<Rightarrow> int \<Rightarrow> int \<Rightarrow> int \<Rightarrow> 'a \<Rightarrow> 'a list option" where
  "push_heap cmp v first holeIndex topIndex val =
     (let parent = tdiv (holeIndex - 1) 2
      in if holeIndex > topIndex
         then do {
           p \<leftarrow> vec_at v (first + parent);
           if cmp p val
           then do {
             v \<leftarrow> vec_set v (first + holeIndex) p;
             push_heap cmp v first parent topIndex val
           }
           else vec_set v (first + holeIndex) val
         }
         else vec_set v (first + holeIndex) val)"

declare push_heap.simps [code]

text \<open>\<open>__adjust_heap\<close>: the loop \<open>while (secondChild < (len - 1) / 2)\<close> returns the vector,
  the hole and the second child; then the case of a last node with one child, and
  \<open>__push_heap\<close>.\<close>

partial_function (option) adjust_heap_loop ::
  "('a \<Rightarrow> 'a \<Rightarrow> bool) \<Rightarrow> 'a list \<Rightarrow> int \<Rightarrow> int \<Rightarrow> int \<Rightarrow> int \<Rightarrow> ('a list \<times> int \<times> int) option" where
  "adjust_heap_loop cmp v first holeIndex len secondChild =
     (if secondChild < tdiv (len - 1) 2
      then do {
        let secondChild = 2 * (secondChild + 1);
        x \<leftarrow> vec_at v (first + secondChild);
        y \<leftarrow> vec_at v (first + (secondChild - 1));
        let secondChild = (if cmp x y then secondChild - 1 else secondChild);
        z \<leftarrow> vec_at v (first + secondChild);
        v \<leftarrow> vec_set v (first + holeIndex) z;
        adjust_heap_loop cmp v first secondChild len secondChild
      }
      else Some (v, holeIndex, secondChild))"

declare adjust_heap_loop.simps [code]

definition adjust_heap ::
  "('a \<Rightarrow> 'a \<Rightarrow> bool) \<Rightarrow> 'a list \<Rightarrow> int \<Rightarrow> int \<Rightarrow> int \<Rightarrow> 'a \<Rightarrow> 'a list option" where
  "adjust_heap cmp v first holeIndex len val =
     (let topIndex = holeIndex
      in do {
        (v, holeIndex, secondChild) \<leftarrow> adjust_heap_loop cmp v first holeIndex len holeIndex;
        (v, holeIndex) \<leftarrow>
          (if len mod 2 = 0 \<and> secondChild = tdiv (len - 2) 2
           then do {
             let secondChild = 2 * (secondChild + 1);
             z \<leftarrow> vec_at v (first + (secondChild - 1));
             v \<leftarrow> vec_set v (first + holeIndex) z;
             Some (v, secondChild - 1)
           }
           else Some (v, holeIndex));
        push_heap cmp v first holeIndex topIndex val
      })"

definition pop_heap :: "('a \<Rightarrow> 'a \<Rightarrow> bool) \<Rightarrow> 'a list \<Rightarrow> int \<Rightarrow> int \<Rightarrow> int \<Rightarrow> 'a list option" where
  "pop_heap cmp v first last' result =
     do {
       val \<leftarrow> vec_at v result;
       f \<leftarrow> vec_at v first;
       v \<leftarrow> vec_set v result f;
       adjust_heap cmp v first 0 (last' - first) val
     }"

partial_function (option) make_heap_loop ::
  "('a \<Rightarrow> 'a \<Rightarrow> bool) \<Rightarrow> 'a list \<Rightarrow> int \<Rightarrow> int \<Rightarrow> int \<Rightarrow> 'a list option" where
  "make_heap_loop cmp v first len parent =
     do {
       val \<leftarrow> vec_at v (first + parent);
       v \<leftarrow> adjust_heap cmp v first parent len val;
       if parent = 0 then Some v else make_heap_loop cmp v first len (parent - 1)
     }"

declare make_heap_loop.simps [code]

definition make_heap :: "('a \<Rightarrow> 'a \<Rightarrow> bool) \<Rightarrow> 'a list \<Rightarrow> int \<Rightarrow> int \<Rightarrow> 'a list option" where
  "make_heap cmp v first last' =
     (if last' - first < 2 then Some v
      else let len = last' - first
           in make_heap_loop cmp v first len (tdiv (len - 2) 2))"

partial_function (option) sort_heap :: "('a \<Rightarrow> 'a \<Rightarrow> bool) \<Rightarrow> 'a list \<Rightarrow> int \<Rightarrow> int \<Rightarrow> 'a list option" where
  "sort_heap cmp v first last' =
     (if last' - first > 1
      then do {
        v \<leftarrow> pop_heap cmp v first (last' - 1) (last' - 1);
        sort_heap cmp v first (last' - 1)
      }
      else Some v)"

declare sort_heap.simps [code]

text \<open>\<open>__heap_select\<close> and \<open>__partial_sort\<close> (\<open>bits/stl_algo.h\<close>).\<close>

partial_function (option) heap_select_loop ::
  "('a \<Rightarrow> 'a \<Rightarrow> bool) \<Rightarrow> 'a list \<Rightarrow> int \<Rightarrow> int \<Rightarrow> int \<Rightarrow> int \<Rightarrow> 'a list option" where
  "heap_select_loop cmp v first middle last' i =
     (if i < last'
      then do {
        x \<leftarrow> vec_at v i;
        f \<leftarrow> vec_at v first;
        v \<leftarrow> (if cmp x f then pop_heap cmp v first middle i else Some v);
        heap_select_loop cmp v first middle last' (i + 1)
      }
      else Some v)"

declare heap_select_loop.simps [code]

definition heap_select ::
  "('a \<Rightarrow> 'a \<Rightarrow> bool) \<Rightarrow> 'a list \<Rightarrow> int \<Rightarrow> int \<Rightarrow> int \<Rightarrow> 'a list option" where
  "heap_select cmp v first middle last' =
     do {
       v \<leftarrow> make_heap cmp v first middle;
       heap_select_loop cmp v first middle last' middle
     }"

definition partial_sort ::
  "('a \<Rightarrow> 'a \<Rightarrow> bool) \<Rightarrow> 'a list \<Rightarrow> int \<Rightarrow> int \<Rightarrow> int \<Rightarrow> 'a list option" where
  "partial_sort cmp v first middle last' =
     do {
       v \<leftarrow> heap_select cmp v first middle last';
       sort_heap cmp v first middle
     }"

text \<open>\<open>__introsort_loop\<close>: the recursive call sorts the upper part, the loop goes on with the
  lower part.\<close>

partial_function (option) introsort_loop ::
  "('a \<Rightarrow> 'a \<Rightarrow> bool) \<Rightarrow> 'a list \<Rightarrow> int \<Rightarrow> int \<Rightarrow> int \<Rightarrow> 'a list option" where
  "introsort_loop cmp v first last' depth_limit =
     (if last' - first > S_threshold
      then if depth_limit = 0 then partial_sort cmp v first last' last'
           else do {
             (v, cut) \<leftarrow> unguarded_partition_pivot cmp v first last';
             v \<leftarrow> introsort_loop cmp v cut last' (depth_limit - 1);
             introsort_loop cmp v first cut (depth_limit - 1)
           }
      else Some v)"

declare introsort_loop.simps [code]

text \<open>\<open>std::sort(v.begin(), v.end(), comp)\<close>.\<close>

definition libstdcxx_sort_run :: "('a \<Rightarrow> 'a \<Rightarrow> bool) \<Rightarrow> 'a list \<Rightarrow> 'a list option" where
  "libstdcxx_sort_run cmp v =
     (let first = 0; last' = int (length v)
      in if first \<noteq> last'
         then do {
           v \<leftarrow> introsort_loop cmp v first last' (int (lg (length v)) * 2);
           final_insertion_sort cmp v first last'
         }
         else Some v)"

text \<open>The sort as the total function that \<open>recommendFriends\<close> takes. Where the run has no
  result the vector is left as it is; the theorems that use \<open>libstdcxx_sort\<close> state the result
  of the run.\<close>

definition libstdcxx_sort :: "('a \<Rightarrow> 'a \<Rightarrow> bool) \<Rightarrow> 'a list \<Rightarrow> 'a list" where
  "libstdcxx_sort cmp v = (case libstdcxx_sort_run cmp v of Some v' \<Rightarrow> v' | None \<Rightarrow> v)"

section \<open>Specification vocabulary\<close>

text \<open>An edge is incident to \<open>p\<close> when \<open>p\<close> is one of its endpoints; \<open>opposite p e\<close> is the
  other endpoint.\<close>

definition incident :: "Node \<Rightarrow> Edge \<Rightarrow> bool" where
  "incident p e \<longleftrightarrow> getFirstNode e = p \<or> getSecondNode e = p"

definition opposite :: "Node \<Rightarrow> Edge \<Rightarrow> Node" where
  "opposite p e = (if getFirstNode e = p then getSecondNode e else getFirstNode e)"

text \<open>The position of the first node equal to \<open>x\<close> (the length of the list when there is
  none).\<close>

definition pos :: "Node list \<Rightarrow> Node \<Rightarrow> nat" where
  "pos ns x = length (takeWhile (\<lambda>n. n \<noteq> x) ns)"

text \<open>The invariant of the store: no two Persons share a name, no two Friendships connect
  the same unordered pair (\<open>upair\<close>), and the endpoints of every Friendship are two different
  nodes of the Person collection.\<close>

definition upair :: "Edge \<Rightarrow> Node set" where
  "upair e = {getFirstNode e, getSecondNode e}"

definition graph_invariant :: "SocialGraph \<Rightarrow> bool" where
  "graph_invariant g \<longleftrightarrow>
     distinct (map getName (nodes g)) \<and>
     distinct (map upair (edgeList g)) \<and>
     (\<forall>e \<in> set (edgeList g).
        getFirstNode e \<noteq> getSecondNode e \<and>
        getFirstNode e \<in> set (nodes g) \<and> getSecondNode e \<in> set (nodes g))"

text \<open>The mutators of the store, as calls; \<open>run\<close> applies a sequence of them in order.\<close>

datatype mutator =
    AddPerson string
  | RemovePerson string
  | AddFriend string string
  | RemoveFriend string string

fun call :: "SocialGraph \<Rightarrow> mutator \<Rightarrow> SocialGraph" where
  "call g (AddPerson name) = addPerson g name"
| "call g (RemovePerson name) = snd (removePerson g name)"
| "call g (AddFriend name1 name2) = addFriend g name1 name2"
| "call g (RemoveFriend name1 name2) = removeFriend g name1 name2"

definition run :: "SocialGraph \<Rightarrow> mutator list \<Rightarrow> SocialGraph" where
  "run g ms = foldl call g ms"

text \<open>A small store used to instantiate the theorems: four Persons, and Friendships
  inserted in the order A-C, A-B, B-D, C-D.\<close>

definition demo_graph :: SocialGraph where
  "demo_graph = run empty_graph
     [AddPerson ''A'', AddPerson ''B'', AddPerson ''C'', AddPerson ''D'',
      AddFriend ''A'' ''C'', AddFriend ''A'' ''B'', AddFriend ''B'' ''D'', AddFriend ''C'' ''D'']"


subsection \<open>Vocabulary for the recommendation ranker\<close>

text \<open>One function that meets the contract of \<open>std::sort\<close>: an insertion sort that puts each
  new element in front of the elements equivalent to it, so that ties come out in the reverse
  of their input order.\<close>

fun insert_by :: "('a \<Rightarrow> 'a \<Rightarrow> bool) \<Rightarrow> 'a \<Rightarrow> 'a list \<Rightarrow> 'a list" where
  "insert_by cmp x [] = [x]"
| "insert_by cmp x (y # ys) = (if cmp y x then y # insert_by cmp x ys else x # y # ys)"

definition tie_reversing_sort :: "('a \<Rightarrow> 'a \<Rightarrow> bool) \<Rightarrow> 'a list \<Rightarrow> 'a list" where
  "tie_reversing_sort cmp xs = foldl (\<lambda>sorted x. insert_by cmp x sorted) [] xs"

text \<open>The mutual-friend count as the specification words it, the size of the intersection of
  the two neighbor sets, and the candidates of a Person in Person insertion order.\<close>

definition mutual_count :: "SocialGraph \<Rightarrow> Node \<Rightarrow> Node \<Rightarrow> int" where
  "mutual_count g a b = int (card (set (getFriends g a) \<inter> set (getFriends g b)))"

definition candidates :: "SocialGraph \<Rightarrow> Node \<Rightarrow> (Node \<times> int) list" where
  "candidates g source =
     map (\<lambda>n. (n, mutual_count g source n))
       (filter (\<lambda>n. n \<noteq> source \<and> n \<notin> set (getFriends g source) \<and> 0 < mutual_count g source n)
          (nodes g))"

text \<open>The ranking as the specification words it: candidates sorted by mutual-friend count
  descending, ties in Person insertion order (\<open>sort_key\<close> is a stable sort), cut to \<open>k\<close>.\<close>

definition recommendFriends_spec :: "SocialGraph \<Rightarrow> string \<Rightarrow> int \<Rightarrow> string list" where
  "recommendFriends_spec g name k =
     map (getName \<circ> fst) (take (nat k) (sort_key (\<lambda>p. - snd p) (candidates g (Node name))))"

text \<open>Two stores for the ranker. In the first, A is a friend of H, and so are the seventeen
  Persons P01 to P17, inserted in that order: each of them is a candidate for A with one
  mutual friend. The second is the example of the specification (A and D both friends of B
  and C, E a friend of B only).\<close>

definition crowd_names :: "string list" where
  "crowd_names = [''P01'', ''P02'', ''P03'', ''P04'', ''P05'', ''P06'', ''P07'', ''P08'', ''P09'',
     ''P10'', ''P11'', ''P12'', ''P13'', ''P14'', ''P15'', ''P16'', ''P17'']"

definition crowd_graph :: SocialGraph where
  "crowd_graph = run empty_graph
     ([AddPerson ''A'', AddPerson ''H'', AddFriend ''A'' ''H''] @
      map AddPerson crowd_names @ map (\<lambda>p. AddFriend p ''H'') crowd_names)"

definition spec_graph :: SocialGraph where
  "spec_graph = run empty_graph
     [AddPerson ''A'', AddPerson ''B'', AddPerson ''C'', AddPerson ''D'', AddPerson ''E'',
      AddFriend ''A'' ''B'', AddFriend ''A'' ''C'', AddFriend ''D'' ''B'', AddFriend ''D'' ''C'',
      AddFriend ''E'' ''B'']"


subsection \<open>Vocabulary for the textual format\<close>

text \<open>A name survives the format when it has no colon and no white space. \<open>line_of\<close> is the
  line written for a node, without its newline.\<close>

definition valid_name :: "string \<Rightarrow> bool" where
  "valid_name s \<longleftrightarrow> (\<forall>c \<in> set s. c \<noteq> CHR '':'' \<and> \<not> isspace c)"

definition line_of :: "SocialGraph \<Rightarrow> Node \<Rightarrow> string" where
  "line_of g n = getName n @ '': '' @ write_friends (getFriends g n)"

text \<open>A store with a colon in a name.\<close>

definition colon_graph :: SocialGraph where
  "colon_graph = run empty_graph [AddPerson ''a:b'', AddPerson ''c'', AddFriend ''a:b'' ''c'']"


subsection \<open>Vocabulary for the path search\<close>

text \<open>A path from \<open>from\<close> to \<open>to\<close>: a non-empty sequence of names that starts with \<open>from\<close>,
  ends with \<open>to\<close>, and has every consecutive pair connected by a Friendship.\<close>

definition is_path :: "SocialGraph \<Rightarrow> string \<Rightarrow> string \<Rightarrow> string list \<Rightarrow> bool" where
  "is_path g from to p \<longleftrightarrow>
     p \<noteq> [] \<and> hd p = from \<and> last p = to \<and> successively (areConnected g) p"

text \<open>The state of the search, read on indices: \<open>adj\<close> is the adjacency of two indices, an
  index is \<open>seen\<close> when its distance is no longer \<open>INT_MAX\<close>. \<open>bfs_inv\<close> is the invariant of
  the \<open>while\<close> loop for the start index \<open>s\<close> and the queue \<open>q\<close>: the start has distance 0
  and no parent; queued indices are seen; distances are below the number of seen indices;
  every other seen index has a seen parent, adjacent to it and one step closer; the queue is
  ordered by distance and spans at most two consecutive distances; a seen index that has
  left the queue has only seen neighbors; and two adjacent seen indices differ by at most
  one in distance. \<open>bfs_measure\<close> decreases with every iteration.\<close>

definition adj :: "SocialGraph \<Rightarrow> nat \<Rightarrow> nat \<Rightarrow> bool" where
  "adj g i j \<longleftrightarrow>
     i < length (nodes g) \<and> j < length (nodes g) \<and>
     (\<exists>e \<in> set (edgeList g). connects e (nodes g ! i) (nodes g ! j))"

definition seen :: "int list \<Rightarrow> nat \<Rightarrow> bool" where
  "seen distance i \<longleftrightarrow> i < length distance \<and> distance ! i \<noteq> INT_MAX"

definition bfs_inv :: "SocialGraph \<Rightarrow> nat \<Rightarrow> int list \<Rightarrow> int list \<Rightarrow> nat list \<Rightarrow> bool" where
  "bfs_inv g s parent distance q \<longleftrightarrow>
     length parent = length (nodes g) \<and> length distance = length (nodes g) \<and>
     seen distance s \<and> distance ! s = 0 \<and> parent ! s = -1 \<and>
     (\<forall>x \<in> set q. seen distance x) \<and>
     (\<forall>i. seen distance i \<longrightarrow>
          0 \<le> distance ! i \<and> distance ! i < int (card {j. seen distance j})) \<and>
     (\<forall>i. seen distance i \<longrightarrow> i \<noteq> s \<longrightarrow>
          (\<exists>p. parent ! i = int p \<and> seen distance p \<and> distance ! i = distance ! p + 1 \<and> adj g p i)) \<and>
     sorted (map (\<lambda>x. distance ! x) q) \<and>
     (\<forall>x \<in> set q. \<forall>y \<in> set q. distance ! y \<le> distance ! x + 1) \<and>
     (\<forall>i j. seen distance i \<longrightarrow> i \<notin> set q \<longrightarrow> adj g i j \<longrightarrow> seen distance j) \<and>
     (\<forall>i j. seen distance i \<longrightarrow> seen distance j \<longrightarrow> adj g i j \<longrightarrow> distance ! j \<le> distance ! i + 1)"

definition bfs_measure :: "int list \<Rightarrow> nat list \<Rightarrow> nat" where
  "bfs_measure distance q = 2 * (length distance - card {j. seen distance j}) + length q"


subsection \<open>The search as the specification words it\<close>

text \<open>A breadth-first search on Persons rather than indices, for a given order of the
  neighbors of a Person: a queue of discovered Persons, a set of visited Persons (each is
  enqueued at most once) and a parent map; the search stops when \<open>target\<close> is dequeued.
  \<open>spec_visit\<close> handles the neighbors of the dequeued Person, in the given order.\<close>

fun spec_visit ::
  "Node list \<Rightarrow> Node \<Rightarrow> (Node \<rightharpoonup> Node) \<Rightarrow> Node set \<Rightarrow> Node list
     \<Rightarrow> (Node \<rightharpoonup> Node) \<times> Node set \<times> Node list" where
  "spec_visit [] current parent visited queue = (parent, visited, queue)"
| "spec_visit (nb # nbs) current parent visited queue =
     (if nb \<in> visited then spec_visit nbs current parent visited queue
      else spec_visit nbs current (parent(nb \<mapsto> current)) (insert nb visited) (queue @ [nb]))"

partial_function (option) spec_bfs ::
  "(Node \<Rightarrow> Node list) \<Rightarrow> Node \<Rightarrow> (Node \<rightharpoonup> Node) \<Rightarrow> Node set \<Rightarrow> Node list
     \<Rightarrow> (Node \<rightharpoonup> Node) option option" where
  "spec_bfs neighbors target parent visited queue =
     (case queue of
        [] \<Rightarrow> Some None
      | current # rest \<Rightarrow>
          if current = target then Some (Some parent)
          else (case spec_visit (neighbors current) current parent visited rest of
                  (parent', visited', queue') \<Rightarrow> spec_bfs neighbors target parent' visited' queue'))"

declare spec_bfs.simps [code]

text \<open>The path is read off the parent map, from \<open>to\<close> back to the Person with no parent.\<close>

partial_function (option) spec_trace :: "(Node \<rightharpoonup> Node) \<Rightarrow> Node \<Rightarrow> Node list \<Rightarrow> Node list option" where
  "spec_trace parent v path =
     (case parent v of
        None \<Rightarrow> Some (v # path)
      | Some p \<Rightarrow> spec_trace parent p (v # path))"

declare spec_trace.simps [code]

definition spec_shortestPath ::
  "(Node \<Rightarrow> Node list) \<Rightarrow> SocialGraph \<Rightarrow> string \<Rightarrow> string \<Rightarrow> string list option" where
  "spec_shortestPath neighbors g from to =
     (if Node from \<notin> set (nodes g) \<or> Node to \<notin> set (nodes g) then Some []
      else do {
        found \<leftarrow> spec_bfs neighbors (Node to) Map.empty {Node from} [Node from];
        case found of
          None \<Rightarrow> Some []
        | Some parent \<Rightarrow> map_option (map getName) (spec_trace parent (Node to) [])
      })"

text \<open>Two orders of the neighbors: the friends of a Person in Person insertion order, which
  is what the specification says, and \<open>getFriends\<close>, which is what the code expands.\<close>

definition friends_in_person_order :: "SocialGraph \<Rightarrow> Node \<Rightarrow> Node list" where
  "friends_in_person_order g n = filter (\<lambda>m. m \<in> set (getFriends g n)) (nodes g)"


text \<open>The relation between the vectors of the code and the set and map of the search above.\<close>

definition bfs_rel ::
  "Node list \<Rightarrow> int list \<Rightarrow> int list \<Rightarrow> (Node \<rightharpoonup> Node) \<Rightarrow> Node set \<Rightarrow> bool" where
  "bfs_rel ns parent distance pmap visited \<longleftrightarrow>
     visited = {ns ! i |i. seen distance i} \<and>
     (\<forall>i < length ns.
        (parent ! i = -1 \<and> pmap (ns ! i) = None) \<or>
        (\<exists>p < length ns. parent ! i = int p \<and> pmap (ns ! i) = Some (ns ! p)))"


section \<open>Basic facts about the store\<close>

lemma getFriends_loop_acc:
  "getFriends_loop es p acc = acc @ map (opposite p) (filter (incident p) es)"
  by (induction es arbitrary: acc) (auto simp: incident_def opposite_def)

lemma getFriends_map_filter:
  "getFriends g p = map (opposite p) (filter (incident p) (edgeList g))"
  by (simp add: getFriends_def getFriends_loop_acc)

lemma nodeExists_iff: "nodeExists g n \<longleftrightarrow> n \<in> set (nodes g)"
  by (auto simp: nodeExists_def find_None_iff)

lemma areConnected_iff:
  "areConnected g a b \<longleftrightarrow> (\<exists>e \<in> set (edgeList g). connects e (Node a) (Node b))"
  by (simp add: areConnected_def list_ex_iff)

lemma in_getFriends_iff:
  "n \<in> set (getFriends g m) \<longleftrightarrow> (\<exists>e \<in> set (edgeList g). connects e m n)"
  by (auto simp: getFriends_map_filter incident_def opposite_def connects_def image_iff)

lemma distinct_names: "distinct (map getName ns) \<longleftrightarrow> distinct ns"
  by (simp add: distinct_map inj_on_def Node.expand)

lemma upair_eq_iff: "upair e = upair e' \<longleftrightarrow> connects e (getFirstNode e') (getSecondNode e')"
  by (auto simp: upair_def connects_def doubleton_eq_iff)

lemma inv_empty: "graph_invariant empty_graph"
  by (simp add: graph_invariant_def empty_graph_def)

lemma inv_addPerson: "graph_invariant g \<Longrightarrow> graph_invariant (addPerson g name)"
  by (auto simp: graph_invariant_def addPerson_def Let_def nodeExists_iff distinct_names)

lemma inv_removePerson: "graph_invariant g \<Longrightarrow> graph_invariant (snd (removePerson g name))"
  by (auto simp: graph_invariant_def removePerson_def Let_def nodeExists_iff distinct_names
      distinct_map_filter)

lemma inv_addFriend: "graph_invariant g \<Longrightarrow> graph_invariant (addFriend g name1 name2)"
  by (auto simp: graph_invariant_def addFriend_def Let_def nodeExists_iff list_ex_iff
      upair_eq_iff image_iff) (auto simp: connects_def)

lemma inv_removeFriend: "graph_invariant g \<Longrightarrow> graph_invariant (removeFriend g name1 name2)"
  by (auto simp: graph_invariant_def removeFriend_def Let_def distinct_map_filter)

lemma inv_call: "graph_invariant g \<Longrightarrow> graph_invariant (call g m)"
  by (cases m) (simp_all add: inv_addPerson inv_removePerson inv_addFriend inv_removeFriend)

lemma inv_run: "graph_invariant g \<Longrightarrow> graph_invariant (run g ms)"
  unfolding run_def by (induction ms arbitrary: g) (simp_all add: inv_call)

lemma demo_graph_eq:
  "demo_graph = \<lparr>nodes = [Node ''A'', Node ''B'', Node ''C'', Node ''D''],
     edgeList = [Edge (Node ''A'') (Node ''C''), Edge (Node ''A'') (Node ''B''),
                 Edge (Node ''B'') (Node ''D''), Edge (Node ''C'') (Node ''D'')]\<rparr>"
  by (simp add: demo_graph_def run_def empty_graph_def addPerson_def addFriend_def nodeExists_def
      connects_def Let_def)


section \<open>Index lookups and vectors\<close>

lemma pos_less: "x \<in> set ns \<Longrightarrow> pos ns x < length ns"
  unfolding pos_def by (induction ns) auto

lemma nth_pos: "x \<in> set ns \<Longrightarrow> ns ! pos ns x = x"
  unfolding pos_def by (induction ns) auto

lemma pos_nth: "distinct ns \<Longrightarrow> i < length ns \<Longrightarrow> pos ns (ns ! i) = i"
  unfolding pos_def by (induction ns arbitrary: i) (auto simp: nth_Cons split: nat.splits)

lemma find_index_eq:
  "find_index ns x j = (if x \<in> set ns then j + int (pos ns x) else -1)"
  unfolding pos_def by (induction ns arbitrary: j) auto

lemma find_endpoints_same:
  "0 \<le> j \<Longrightarrow> find_endpoints ns x x j (-1) (-1) = (find_index ns x j, find_index ns x j)"
  by (induction ns arbitrary: j) (auto simp: Let_def)

lemma vec_at_simps:
  "0 \<le> i \<Longrightarrow> i < int (length xs) \<Longrightarrow> vec_at xs i = Some (xs ! nat i)"
  by (simp add: vec_at_def)

lemma vec_set_simps:
  "0 \<le> i \<Longrightarrow> i < int (length xs) \<Longrightarrow> vec_set xs i v = Some (xs[nat i := v])"
  by (simp add: vec_set_def)


section \<open>Facts about the recommendation ranker\<close>

lemma swo_neg_trans:
  assumes "strict_weak_order cmp" "\<not> cmp a b" "\<not> cmp b c"
  shows "\<not> cmp a c"
  using assms unfolding strict_weak_order_def by metis

lemma swo_asym: "strict_weak_order cmp \<Longrightarrow> cmp a b \<Longrightarrow> \<not> cmp b a"
  unfolding strict_weak_order_def by metis

lemma mset_insert_by: "mset (insert_by cmp x ys) = add_mset x (mset ys)"
  by (induction ys) auto

lemma set_insert_by: "set (insert_by cmp x ys) = insert x (set ys)"
  by (induction ys) auto

lemma sorted_insert_by:
  assumes swo: "strict_weak_order cmp"
  shows "sorted_wrt (\<lambda>a b. \<not> cmp b a) ys \<Longrightarrow> sorted_wrt (\<lambda>a b. \<not> cmp b a) (insert_by cmp x ys)"
proof (induction ys)
  case Nil
  then show ?case by simp
next
  case (Cons y ys)
  show ?case
  proof (cases "cmp y x")
    case True
    with Cons swo_asym [OF swo True] show ?thesis
      by (auto simp: set_insert_by)
  next
    case False
    have "\<not> cmp z x" if "z \<in> set ys" for z
    proof -
      from Cons.prems that have "\<not> cmp z y" by auto
      from swo_neg_trans [OF swo this False] show ?thesis .
    qed
    with False Cons.prems show ?thesis by auto
  qed
qed

lemma foldl_insert_by:
  assumes swo: "strict_weak_order cmp"
  shows "sorted_wrt (\<lambda>a b. \<not> cmp b a) acc \<Longrightarrow>
         mset (foldl (\<lambda>sorted x. insert_by cmp x sorted) acc xs) = mset acc + mset xs \<and>
         sorted_wrt (\<lambda>a b. \<not> cmp b a) (foldl (\<lambda>sorted x. insert_by cmp x sorted) acc xs)"
  by (induction xs arbitrary: acc) (simp_all add: mset_insert_by sorted_insert_by [OF swo])

lemma tie_reversing_sort_contract: "std_sort_contract tie_reversing_sort"
  unfolding std_sort_contract_def tie_reversing_sort_def
  using foldl_insert_by [where acc = "[]"] by fastforce

lemma swo_more_mutual: "strict_weak_order more_mutual"
  unfolding strict_weak_order_def more_mutual_def by auto

lemma countMutualFriends_loop_eq:
  "countMutualFriends_loop as bs c = c + int (length (filter (\<lambda>a. a \<in> set bs) as))"
  by (induction as arbitrary: c) (auto simp: list_ex_iff)

lemma potentialFriends_loop_eq:
  "potentialFriends_loop g s cf ns acc =
     acc @ map (\<lambda>n. (n, countMutualFriends g s n))
             (filter (\<lambda>n. n \<noteq> s \<and> n \<notin> set cf \<and> 0 < countMutualFriends g s n) ns)"
  by (induction ns arbitrary: acc) (auto simp: list_ex_iff Let_def)

lemma upair_incident: "incident p e \<Longrightarrow> upair e = {p, opposite p e}"
  by (auto simp: incident_def upair_def opposite_def)

lemma distinct_getFriends:
  assumes "graph_invariant g"
  shows "distinct (getFriends g p)"
proof -
  from assms have d: "distinct (map upair (edgeList g))" by (simp add: graph_invariant_def)
  then have de: "distinct (edgeList g)" and inj: "inj_on upair (set (edgeList g))"
    by (simp_all add: distinct_map)
  have "inj_on (opposite p) (set (filter (incident p) (edgeList g)))"
  proof (rule inj_onI)
    fix e e' assume e: "e \<in> set (filter (incident p) (edgeList g))"
      and e': "e' \<in> set (filter (incident p) (edgeList g))" and eq: "opposite p e = opposite p e'"
    then have "upair e = upair e'" using upair_incident [of p e] upair_incident [of p e'] by simp
    with inj e e' show "e = e'" by (auto dest: inj_onD)
  qed
  with de show ?thesis by (simp add: getFriends_map_filter distinct_map)
qed

lemma countMutualFriends_card:
  assumes "graph_invariant g"
  shows "countMutualFriends g a b = mutual_count g a b"
proof -
  have "length (filter (\<lambda>x. x \<in> set (getFriends g b)) (getFriends g a))
        = card (set (filter (\<lambda>x. x \<in> set (getFriends g b)) (getFriends g a)))"
    using distinct_getFriends [OF assms, of a] by (simp only: distinct_card distinct_filter)
  also have "set (filter (\<lambda>x. x \<in> set (getFriends g b)) (getFriends g a))
             = set (getFriends g a) \<inter> set (getFriends g b)" by auto
  finally show ?thesis
    by (simp add: countMutualFriends_def countMutualFriends_loop_eq mutual_count_def)
qed

lemma potentialFriends_candidates:
  assumes "graph_invariant g"
  shows "potentialFriends_loop g s (getFriends g s) (nodes g) [] = candidates g s"
  by (simp add: potentialFriends_loop_eq candidates_def countMutualFriends_card [OF assms])

lemma top_loop_eq:
  "0 \<le> i \<Longrightarrow> limit \<le> int (length pf) \<Longrightarrow>
   top_loop pf limit i acc = Some (acc @ map (getName \<circ> fst) (drop (nat i) (take (nat limit) pf)))"
proof (induction pf limit i acc rule: top_loop.induct)
  case (1 pf limit i acc)
  show ?case
  proof (cases "i < limit")
    case False
    then show ?thesis by (subst top_loop.simps) simp
  next
    case True
    with 1 have at: "vec_at pf i = Some (pf ! nat i)" by (simp add: vec_at_def)
    have d: "drop (nat i) (take (nat limit) pf) = pf ! nat i # drop (nat (i + 1)) (take (nat limit) pf)"
      using True 1
      by (simp add: Cons_nth_drop_Suc [symmetric] nat_add_distrib)
    from 1 True at have "top_loop pf limit (i + 1) (acc @ [getName (fst (pf ! nat i))]) =
        Some ((acc @ [getName (fst (pf ! nat i))]) @ map (getName \<circ> fst) (drop (nat (i + 1)) (take (nat limit) pf)))"
      by simp
    with True at d show ?thesis by (subst top_loop.simps) simp
  qed
qed

lemma recommendFriends_unfold:
  assumes "nodeExists g (Node name)"
  shows "recommendFriends srt g name k =
     (let ranked = srt more_mutual (potentialFriends_loop g (Node name) (getFriends g (Node name)) (nodes g) [])
      in top_loop ranked
           (to_int (if to_size_t k < int (length ranked) then to_size_t k else int (length ranked)))
           0 [])"
  using assms by (simp add: recommendFriends_def Let_def)

lemma limit_positive_k:
  assumes "0 < k" "k \<le> INT_MAX"
  shows "to_int (if to_size_t k < int n then to_size_t k else int n) = min k (int n)"
proof -
  from assms have k: "to_size_t k = k" by (simp add: to_size_t_def INT_MAX_def)
  show ?thesis
  proof (cases "k < int n")
    case True
    with assms k show ?thesis by (simp add: to_int_def INT_MAX_def)
  next
    case False
    with assms have "int n < 2 ^ 31" by (simp add: INT_MAX_def)
    with False k show ?thesis by (simp add: to_int_def)
  qed
qed

lemma recommendFriends_positive_k:
  assumes "nodeExists g (Node name)" "0 < k" "k \<le> INT_MAX"
  shows "recommendFriends srt g name k =
     Some (map (getName \<circ> fst) (take (nat k)
        (srt more_mutual (potentialFriends_loop g (Node name) (getFriends g (Node name)) (nodes g) []))))"
proof -
  define ranked where
    "ranked = srt more_mutual (potentialFriends_loop g (Node name) (getFriends g (Node name)) (nodes g) [])"
  have "top_loop ranked (min k (int (length ranked))) 0 [] =
          Some ([] @ map (getName \<circ> fst) (drop (nat 0) (take (nat (min k (int (length ranked)))) ranked)))"
    by (rule top_loop_eq) simp_all
  also have "take (nat (min k (int (length ranked)))) ranked = take (nat k) ranked"
    using assms(2) by (cases "k < int (length ranked)") (simp_all add: min_def)
  finally show ?thesis
    using assms by (simp add: recommendFriends_unfold limit_positive_k ranked_def Let_def)
qed

lemma recommendFriends_zero_or_unknown:
  "recommendFriends srt g name 0 = Some []"
  "\<not> nodeExists g (Node name) \<Longrightarrow> recommendFriends srt g name k = Some []"
  by (simp_all add: recommendFriends_def Let_def to_size_t_def to_int_def)

lemma sort_singleton:
  assumes "std_sort_contract srt" "strict_weak_order cmp"
  shows "srt cmp [x] = [x]"
proof -
  from assms have "mset (srt cmp [x]) = mset [x]" unfolding std_sort_contract_def by blast
  then show ?thesis by simp
qed


section \<open>Facts about saving and loading\<close>

lemma getlines_append:
  "newline \<notin> set l \<Longrightarrow> getlines acc (l @ newline # rest) = (acc @ l) # getlines [] rest"
  by (induction l arbitrary: acc) auto

lemma getlines_concat:
  "\<forall>l \<in> set ls. newline \<notin> set l \<Longrightarrow> getlines [] (concat (map (\<lambda>l. l @ [newline]) ls)) = ls"
  by (induction ls) (simp_all add: getlines_append)

lemma str_find_append:
  "c \<notin> set xs \<Longrightarrow> str_find (xs @ c # ys) c i = i + int (length xs)"
  by (induction xs arbitrary: i) auto

lemma trim_id: "\<forall>c \<in> set s. \<not> blank c \<Longrightarrow> trim s = s"
proof -
  assume a: "\<forall>c \<in> set s. \<not> blank c"
  have d: "dropWhile blank xs = xs" if "\<forall>c \<in> set xs. \<not> blank c" for xs
    using that by (cases xs) auto
  from a have "dropWhile blank s = s" by (rule d)
  moreover from a have "dropWhile blank (rev s) = rev s" by (intro d) simp
  ultimately show ?thesis by (simp add: trim_def)
qed

lemma tokens_append:
  "\<forall>c \<in> set s. \<not> isspace c \<Longrightarrow> tokens tok (s @ rest) = tokens (tok @ s) rest"
  by (induction s arbitrary: tok) auto

lemma tokens_write_friends:
  "\<forall>f \<in> set fs. valid_name (getName f) \<Longrightarrow>
   tokens [] (write_friends fs) = filter (\<lambda>s. s \<noteq> []) (map getName fs)"
proof (induction fs rule: write_friends.induct)
  case 1
  then show ?case by simp
next
  case (2 f)
  then have "tokens [] (getName f @ []) = tokens ([] @ getName f) []"
    by (intro tokens_append) (simp add: valid_name_def)
  then show ?case by simp
next
  case (3 f f' fs)
  then have "tokens [] (getName f @ CHR '' '' # write_friends (f' # fs))
             = tokens ([] @ getName f) (CHR '' '' # write_friends (f' # fs))"
    by (intro tokens_append) (simp add: valid_name_def)
  with 3 show ?case by (simp add: isspace_def)
qed

lemma load_line_written:
  assumes "valid_name (getName n)" "\<forall>f \<in> set fs. valid_name (getName f)"
  shows "load_line g (getName n @ '': '' @ write_friends fs) =
         load_neighbors (addPerson g (getName n)) (getName n)
           (filter (\<lambda>s. s \<noteq> []) (map getName fs))"
proof -
  from assms(1) have nc: "CHR '':'' \<notin> set (getName n)" and nb: "\<forall>c \<in> set (getName n). \<not> blank c"
    by (auto simp: valid_name_def isspace_def blank_def)
  have f: "str_find (getName n @ '': '' @ write_friends fs) (CHR '':'') 0 = int (length (getName n))"
    using str_find_append [OF nc, of "CHR '' '' # write_friends fs" 0] by simp
  have t: "tokens [] (CHR '' '' # write_friends fs) = filter (\<lambda>s. s \<noteq> []) (map getName fs)"
    using tokens_write_friends [OF assms(2)] by (simp add: isspace_def)
  show ?thesis
    unfolding load_line_def f Let_def
    using t by (simp add: trim_id [OF nb] nat_add_distrib)
qed

lemma areConnected_addPerson [simp]: "areConnected (addPerson g p) x y = areConnected g x y"
  by (simp add: areConnected_def addPerson_def Let_def)

lemma nodeExists_addPerson [simp]:
  "nodeExists (addPerson g p) n \<longleftrightarrow> nodeExists g n \<or> n = Node p"
  by (auto simp: nodeExists_iff addPerson_def Let_def)

lemma nodeExists_addFriend [simp]: "nodeExists (addFriend g a b) n \<longleftrightarrow> nodeExists g n"
  by (simp add: nodeExists_iff addFriend_def Let_def)

lemma areConnected_addFriend:
  "areConnected (addFriend g a b) x y \<longleftrightarrow>
     areConnected g x y \<or>
     (nodeExists g (Node a) \<and> nodeExists g (Node b) \<and> a \<noteq> b \<and>
      ((x = a \<and> y = b) \<or> (x = b \<and> y = a)))"
  by (auto simp: areConnected_iff addFriend_def Let_def list_ex_iff connects_def)

lemma nodeExists_load_neighbors:
  "nodeExists g n \<Longrightarrow> nodeExists (load_neighbors g s ts) n"
  by (induction ts arbitrary: g) simp_all

lemma areConnected_load_neighbors:
  "nodeExists g (Node s) \<Longrightarrow>
   areConnected (load_neighbors g s ts) x y \<longleftrightarrow>
     areConnected g x y \<or> (\<exists>t \<in> set ts. t \<noteq> s \<and> ((x = s \<and> y = t) \<or> (x = t \<and> y = s)))"
proof (induction ts arbitrary: g)
  case Nil
  then show ?case by simp
next
  case (Cons t ts)
  have "nodeExists (addFriend (addPerson g t) s t) (Node s)" using Cons.prems by simp
  from Cons.IH [OF this] Cons.prems show ?case
    by (auto simp: areConnected_addFriend)
qed

lemma connects_sym: "connects e a b \<longleftrightarrow> connects e b a"
  by (auto simp: connects_def)

lemma set_write_friends:
  "set (write_friends fs) \<subseteq> (\<Union>f \<in> set fs. set (getName f)) \<union> {CHR '' ''}"
  by (induction fs rule: write_friends.induct) auto

lemma saveToFile_lines: "saveToFile g = concat (map (\<lambda>l. l @ [newline]) (map (line_of g) (nodes g)))"
proof -
  have "write_line g = (\<lambda>n. line_of g n @ [newline])"
    by (simp add: fun_eq_iff write_line_def line_of_def)
  then show ?thesis by (simp add: saveToFile_def comp_def)
qed

lemma valid_name_no_newline: "valid_name s \<Longrightarrow> newline \<notin> set s"
  by (auto simp: valid_name_def isspace_def newline_def)

lemma friends_present:
  assumes "graph_invariant g" "f \<in> set (getFriends g n)"
  shows "f \<in> set (nodes g)"
  using assms by (auto simp: in_getFriends_iff graph_invariant_def connects_def)

lemma line_of_no_newline:
  assumes "graph_invariant g" "\<forall>n \<in> set (nodes g). valid_name (getName n)" "n \<in> set (nodes g)"
  shows "newline \<notin> set (line_of g n)"
proof -
  have "newline \<notin> set (write_friends (getFriends g n))"
  proof
    assume "newline \<in> set (write_friends (getFriends g n))"
    with set_write_friends [of "getFriends g n"]
    obtain f where "f \<in> set (getFriends g n)" "newline \<in> set (getName f)"
      by (auto simp: newline_def)
    with assms(1,2) friends_present valid_name_no_newline show False by blast
  qed
  moreover from assms(2,3) have "newline \<notin> set (getName n)" by (simp add: valid_name_no_newline)
  ultimately show ?thesis by (simp add: line_of_def newline_def)
qed

lemma getlines_saveToFile:
  assumes "graph_invariant g" "\<forall>n \<in> set (nodes g). valid_name (getName n)"
  shows "getlines [] (saveToFile g) = map (line_of g) (nodes g)"
  unfolding saveToFile_lines
  by (rule getlines_concat) (use line_of_no_newline [OF assms] in auto)

lemma areConnected_load_lines:
  assumes inv: "graph_invariant g" and valid: "\<forall>n \<in> set (nodes g). valid_name (getName n)"
  shows "set ns \<subseteq> set (nodes g) \<Longrightarrow>
    areConnected (load_lines h (map (line_of g) ns)) x y \<longleftrightarrow>
      areConnected h x y \<or>
      (\<exists>n \<in> set ns. \<exists>f \<in> set (getFriends g n). getName f \<noteq> [] \<and> getName f \<noteq> getName n \<and>
         ((x = getName n \<and> y = getName f) \<or> (x = getName f \<and> y = getName n)))"
proof (induction ns arbitrary: h)
  case Nil
  then show ?case by simp
next
  case (Cons n ns)
  from Cons.prems have n: "n \<in> set (nodes g)" and ns: "set ns \<subseteq> set (nodes g)" by auto
  have ne: "line_of g n \<noteq> []" by (simp add: line_of_def)
  have vf: "\<forall>f \<in> set (getFriends g n). valid_name (getName f)"
    using friends_present [OF inv] valid by blast
  from n valid have vn: "valid_name (getName n)" by simp
  have ll: "load_line h (line_of g n) =
        load_neighbors (addPerson h (getName n)) (getName n)
          (filter (\<lambda>s. s \<noteq> []) (map getName (getFriends g n)))"
    unfolding line_of_def by (rule load_line_written [OF vn vf])
  have ex: "nodeExists (addPerson h (getName n)) (Node (getName n))" by simp
  show ?case
    using Cons.IH [OF ns, of "load_line h (line_of g n)"] ne
    by (simp add: ll areConnected_load_neighbors [OF ex])
qed


section \<open>The breadth-first search and its invariant\<close>

lemma adj_sym: "adj g i j \<Longrightarrow> adj g j i"
  by (auto simp: adj_def connects_def)

lemma finite_seen: "finite {j. seen d j}"
  by (rule finite_subset [of _ "{..<length d}"]) (auto simp: seen_def)

lemma card_seen_le: "card {j. seen d j} \<le> length d"
  using card_mono [of "{..<length d}" "{j. seen d j}"] by (auto simp: seen_def)

lemma card_seen_less:
  assumes "w < length d" "\<not> seen d w"
  shows "card {j. seen d j} < length d"
proof -
  have "{j. seen d j} \<subset> {..<length d}" using assms by (auto simp: seen_def)
  from psubset_card_mono [OF _ this] show ?thesis by simp
qed

lemma bfs_inv_visit:
  assumes inv: "bfs_inv g s parent distance (c # q)"
    and adj: "adj g c w" and unseen: "\<not> seen distance w"
    and small: "int (length (nodes g)) \<le> INT_MAX"
  shows "bfs_inv g s (parent[w := int c]) (distance[w := distance ! c + 1]) (c # q @ [w])"
proof -
  let ?d = "distance[w := distance ! c + 1]"
  let ?p = "parent[w := int c]"
  from inv have len: "length parent = length (nodes g)" "length distance = length (nodes g)"
    and s: "seen distance s" "distance ! s = 0" "parent ! s = -1"
    and qs: "\<forall>x \<in> set (c # q). seen distance x"
    and bnd: "\<And>i. seen distance i \<Longrightarrow> 0 \<le> distance ! i \<and> distance ! i < int (card {j. seen distance j})"
    and par: "\<And>i. seen distance i \<Longrightarrow> i \<noteq> s \<Longrightarrow>
          \<exists>p. parent ! i = int p \<and> seen distance p \<and> distance ! i = distance ! p + 1 \<and> adj g p i"
    and srt: "sorted (map (\<lambda>x. distance ! x) (c # q))"
    and near: "\<forall>x \<in> set (c # q). \<forall>y \<in> set (c # q). distance ! y \<le> distance ! x + 1"
    and clos: "\<And>i j. seen distance i \<Longrightarrow> i \<notin> set (c # q) \<Longrightarrow> adj g i j \<Longrightarrow> seen distance j"
    and edge: "\<And>i j. seen distance i \<Longrightarrow> seen distance j \<Longrightarrow> adj g i j \<Longrightarrow> distance ! j \<le> distance ! i + 1"
    unfolding bfs_inv_def by blast+
  from adj have w: "w < length distance" and cn: "c < length distance"
    by (simp_all add: adj_def len)
  from qs have c: "seen distance c" by simp
  from card_seen_less [OF w unseen] bnd [OF c] small len
  have dc: "0 \<le> distance ! c" "distance ! c + 1 < INT_MAX" by simp_all
  have seen': "seen ?d i \<longleftrightarrow> seen distance i \<or> i = w" for i
    using w dc by (auto simp: seen_def nth_list_update)
  have same: "?d ! i = distance ! i" if "seen distance i" for i
    using that unseen by (cases "i = w") auto
  have dw: "?d ! w = distance ! c + 1" using w by simp
  have "{j. seen ?d j} = insert w {j. seen distance j}" by (auto simp: seen')
  then have card': "card {j. seen ?d j} = Suc (card {j. seen distance j})"
    using unseen by (simp add: finite_seen)
  have ws: "w \<noteq> s" using unseen s by auto
  have wq: "w \<notin> set (c # q)" using unseen qs by auto
  have 1: "length ?p = length (nodes g)" "length ?d = length (nodes g)" by (simp_all add: len)
  have 2: "seen ?d s" "?d ! s = 0" "?p ! s = -1" using s ws by (simp_all add: seen')
  have 3: "\<forall>x \<in> set (c # q @ [w]). seen ?d x" using qs by (simp add: seen')
  have 4: "0 \<le> ?d ! i \<and> ?d ! i < int (card {j. seen ?d j})" if "seen ?d i" for i
  proof (cases "i = w")
    case True
    with dc bnd [OF c] dw card' show ?thesis by simp
  next
    case False
    with that have "seen distance i" by (simp add: seen')
    with bnd [OF this] same [OF this] card' show ?thesis by simp
  qed
  have 5: "\<exists>p. ?p ! i = int p \<and> seen ?d p \<and> ?d ! i = ?d ! p + 1 \<and> adj g p i"
    if "seen ?d i" "i \<noteq> s" for i
  proof (cases "i = w")
    case True
    with w len c same [OF c] dw adj show ?thesis
      by (intro exI [of _ c]) (simp add: seen')
  next
    case False
    with that have si: "seen distance i" by (simp add: seen')
    from par [OF si that(2)] obtain p where p: "parent ! i = int p" "seen distance p"
      "distance ! i = distance ! p + 1" "adj g p i" by blast
    with False same [OF si] same [OF p(2)] show ?thesis
      by (intro exI [of _ p]) (simp add: seen')
  qed
  have dq: "map (\<lambda>x. ?d ! x) (c # q) = map (\<lambda>x. distance ! x) (c # q)"
    using qs by (intro map_cong) (auto simp: same)
  have hd_le: "distance ! c \<le> distance ! x" if "x \<in> set (c # q)" for x
    using srt that by auto
  have le_hd: "distance ! x \<le> distance ! c + 1" if "x \<in> set (c # q)" for x
    using near that by auto
  have 6: "sorted (map (\<lambda>x. ?d ! x) (c # q @ [w]))"
  proof -
    have "sorted (map (\<lambda>x. ?d ! x) (c # q) @ [?d ! w])"
      unfolding dq using srt le_hd dw
      by (subst sorted_append) auto
    then show ?thesis by simp
  qed
  have 7: "\<forall>x \<in> set (c # q @ [w]). \<forall>y \<in> set (c # q @ [w]). ?d ! y \<le> ?d ! x + 1"
  proof (intro ballI)
    fix x y assume x: "x \<in> set (c # q @ [w])" and y: "y \<in> set (c # q @ [w])"
    have dx: "distance ! c \<le> ?d ! x \<and> ?d ! x \<le> distance ! c + 1" if "x \<in> set (c # q @ [w])" for x
    proof (cases "x = w")
      case True
      then show ?thesis using dw by simp
    next
      case False
      with that have "x \<in> set (c # q)" by auto
      with hd_le [OF this] le_hd [OF this] qs same [of x] show ?thesis by auto
    qed
    from dx [OF x] dx [OF y] show "?d ! y \<le> ?d ! x + 1" by linarith
  qed
  have 8: "seen ?d j" if "seen ?d i" "i \<notin> set (c # q @ [w])" "adj g i j" for i j
  proof -
    from that have "seen distance i" "i \<notin> set (c # q)" by (auto simp: seen')
    from clos [OF this that(3)] show ?thesis by (simp add: seen')
  qed
  have 9: "?d ! j \<le> ?d ! i + 1" if "seen ?d i" "seen ?d j" "adj g i j" for i j
  proof -
    have inq: "x \<in> set (c # q)" if "seen distance x" "adj g x w" for x
      using clos [OF that(1) _ that(2)] unseen by blast
    consider "i = w" "j = w" | "i \<noteq> w" "j = w" | "i = w" "j \<noteq> w" | "i \<noteq> w" "j \<noteq> w" by blast
    then show ?thesis
    proof cases
      case 1
      then show ?thesis by simp
    next
      case 2
      with that have si: "seen distance i" by (simp add: seen')
      from 2 that have "i \<in> set (c # q)" using inq [OF si] by simp
      from hd_le [OF this] same [OF si] dw 2 show ?thesis by simp
    next
      case 3
      with that have sj: "seen distance j" by (simp add: seen')
      from 3 that have "j \<in> set (c # q)" using inq [OF sj] adj_sym by blast
      from le_hd [OF this] same [OF sj] dw 3 show ?thesis by simp
    next
      case 4
      with that have si: "seen distance i" and sj: "seen distance j" by (simp_all add: seen')
      from edge [OF si sj that(3)] same [OF si] same [OF sj] show ?thesis by simp
    qed
  qed
  show ?thesis
    unfolding bfs_inv_def
    using 1 2 3 4 5 6 7 8 9 by blast
qed

lemma find_index_pos: "x \<in> set ns \<Longrightarrow> find_index ns x 0 = int (pos ns x)"
  by (simp add: find_index_eq)

lemma bfs_inv_lengths:
  "bfs_inv g s parent distance q \<Longrightarrow>
   length parent = length (nodes g) \<and> length distance = length (nodes g)"
  by (simp add: bfs_inv_def)

lemma bfs_inv_queue_seen: "bfs_inv g s parent distance q \<Longrightarrow> x \<in> set q \<Longrightarrow> seen distance x"
  by (simp add: bfs_inv_def)

lemma bfs_measure_visit:
  assumes "w < length distance" "\<not> seen distance w" "v \<noteq> INT_MAX"
  shows "bfs_measure (distance[w := v]) (q @ [w]) < bfs_measure distance q"
proof -
  have "{j. seen (distance[w := v]) j} = insert w {j. seen distance j}"
    using assms by (auto simp: seen_def nth_list_update)
  then have "card {j. seen (distance[w := v]) j} = Suc (card {j. seen distance j})"
    using assms(2) by (simp add: finite_seen)
  with card_seen_less [OF assms(1,2)] show ?thesis by (simp add: bfs_measure_def)
qed

lemma visit_neighbors_inv:
  assumes small: "int (length (nodes g)) \<le> INT_MAX"
  shows "bfs_inv g s parent distance (c # q) \<Longrightarrow>
    \<forall>nb \<in> set nbs. nb \<in> set (nodes g) \<and> adj g c (pos (nodes g) nb) \<Longrightarrow>
    \<exists>parent' distance' q'.
       visit_neighbors (nodes g) nbs (int c) parent distance (map int q)
         = Some (parent', distance', map int q') \<and>
       bfs_inv g s parent' distance' (c # q') \<and>
       (\<forall>nb \<in> set nbs. seen distance' (pos (nodes g) nb)) \<and>
       (\<forall>i. seen distance i \<longrightarrow> seen distance' i) \<and>
       (\<forall>i. seen distance' i \<longrightarrow> seen distance i \<or> i \<in> set q') \<and>
       set q \<subseteq> set q' \<and>
       bfs_measure distance' q' \<le> bfs_measure distance q"
proof (induction nbs arbitrary: parent distance q)
  case Nil
  then show ?case by auto
next
  case (Cons nb nbs)
  let ?w = "pos (nodes g) nb"
  from Cons.prems have nb: "nb \<in> set (nodes g)" and adj: "adj g c ?w"
    and rest: "\<forall>nb \<in> set nbs. nb \<in> set (nodes g) \<and> adj g c (pos (nodes g) nb)" by auto
  from bfs_inv_lengths [OF Cons.prems(1)]
  have len: "length parent = length (nodes g)" "length distance = length (nodes g)" by simp_all
  from adj have w: "?w < length (nodes g)" and c: "c < length (nodes g)" by (simp_all add: adj_def)
  have fi: "find_index (nodes g) nb 0 = int ?w" by (rule find_index_pos [OF nb])
  have atw: "vec_at distance (int ?w) = Some (distance ! ?w)" using w len by (simp add: vec_at_def)
  show ?case
  proof (cases "seen distance ?w")
    case True
    then have ne: "distance ! ?w \<noteq> INT_MAX" by (simp add: seen_def)
    from Cons.IH [OF Cons.prems(1) rest]
    obtain parent' distance' q' where
      r: "visit_neighbors (nodes g) nbs (int c) parent distance (map int q)
            = Some (parent', distance', map int q')"
      and i: "bfs_inv g s parent' distance' (c # q')"
      and a: "\<forall>nb \<in> set nbs. seen distance' (pos (nodes g) nb)"
      and m: "\<forall>i. seen distance i \<longrightarrow> seen distance' i"
      and n: "\<forall>i. seen distance' i \<longrightarrow> seen distance i \<or> i \<in> set q'"
      and sub: "set q \<subseteq> set q'"
      and ms: "bfs_measure distance' q' \<le> bfs_measure distance q" by blast
    have "visit_neighbors (nodes g) (nb # nbs) (int c) parent distance (map int q)
            = Some (parent', distance', map int q')"
      using fi atw ne r by simp
    with i a m n sub ms True show ?thesis by auto
  next
    case False
    then have eq: "distance ! ?w = INT_MAX" using w len by (simp add: seen_def)
    from bfs_inv_queue_seen [OF Cons.prems(1), of c] have sc: "seen distance c" by simp
    then have dc: "distance ! c \<noteq> INT_MAX" by (simp add: seen_def)
    have atc: "vec_at distance (int c) = Some (distance ! c)" using c len by (simp add: vec_at_def)
    have setd: "vec_set distance (int ?w) (distance ! c + 1) = Some (distance[?w := distance ! c + 1])"
      and setp: "vec_set parent (int ?w) (int c) = Some (parent[?w := int c])"
      using w len by (simp_all add: vec_set_def)
    let ?d = "distance[?w := distance ! c + 1]" and ?p = "parent[?w := int c]"
    have inv': "bfs_inv g s ?p ?d (c # q @ [?w])"
      by (rule bfs_inv_visit [OF Cons.prems(1) adj False small])
    from bfs_inv_queue_seen [OF inv', of ?w] have sw: "seen ?d ?w" by simp
    then have v: "distance ! c + 1 \<noteq> INT_MAX" using w len by (simp add: seen_def)
    from Cons.IH [OF inv' rest]
    obtain parent' distance' q' where
      r: "visit_neighbors (nodes g) nbs (int c) ?p ?d (map int (q @ [?w]))
            = Some (parent', distance', map int q')"
      and i: "bfs_inv g s parent' distance' (c # q')"
      and a: "\<forall>nb \<in> set nbs. seen distance' (pos (nodes g) nb)"
      and m: "\<forall>i. seen ?d i \<longrightarrow> seen distance' i"
      and n: "\<forall>i. seen distance' i \<longrightarrow> seen ?d i \<or> i \<in> set q'"
      and sub: "set (q @ [?w]) \<subseteq> set q'"
      and ms: "bfs_measure distance' q' \<le> bfs_measure ?d (q @ [?w])" by blast
    have mono: "seen ?d i \<longleftrightarrow> seen distance i \<or> i = ?w" for i
      using w len v by (auto simp: seen_def nth_list_update)
    have run: "visit_neighbors (nodes g) (nb # nbs) (int c) parent distance (map int q)
            = Some (parent', distance', map int q')"
      using fi atw eq atc dc setd setp r by simp
    from bfs_measure_visit [of ?w distance "distance ! c + 1" q] w len False v ms
    have ms': "bfs_measure distance' q' \<le> bfs_measure distance q" by simp
    from m sw have "seen distance' ?w" by blast
    with run i a m n sub ms' mono show ?thesis by auto
  qed
qed

lemma invariant_distinct: "graph_invariant g \<Longrightarrow> distinct (nodes g)"
  by (simp add: graph_invariant_def distinct_names)

lemma friends_adj:
  assumes inv: "graph_invariant g" and c: "c < length (nodes g)"
    and nb: "nb \<in> set (getFriends g (nodes g ! c))"
  shows "nb \<in> set (nodes g) \<and> adj g c (pos (nodes g) nb)"
proof -
  from nb obtain e where e: "e \<in> set (edgeList g)" "connects e (nodes g ! c) nb"
    by (auto simp: in_getFriends_iff)
  with inv have mem: "nb \<in> set (nodes g)"
    by (auto simp: graph_invariant_def connects_def)
  with e c show ?thesis by (auto simp: adj_def pos_less nth_pos)
qed

lemma adj_friends:
  assumes inv: "graph_invariant g" and a: "adj g c j"
  shows "nodes g ! j \<in> set (getFriends g (nodes g ! c)) \<and> pos (nodes g) (nodes g ! j) = j"
  using a invariant_distinct [OF inv] by (auto simp: adj_def in_getFriends_iff pos_nth)

lemma bfs_inv_dequeue:
  assumes inv: "bfs_inv g s parent distance (c # q)"
    and nbrs: "\<forall>j. adj g c j \<longrightarrow> seen distance j"
  shows "bfs_inv g s parent distance q"
proof -
  from inv have srt: "sorted (map (\<lambda>x. distance ! x) (c # q))"
    and clos: "\<And>i j. seen distance i \<Longrightarrow> i \<notin> set (c # q) \<Longrightarrow> adj g i j \<Longrightarrow> seen distance j"
    unfolding bfs_inv_def by blast+
  have 1: "sorted (map (\<lambda>x. distance ! x) q)" using srt by simp
  have 2: "seen distance j" if "seen distance i" "i \<notin> set q" "adj g i j" for i j
    using that clos [of i j] nbrs by (cases "i = c") auto
  from inv 1 2 show ?thesis unfolding bfs_inv_def by simp
qed

lemma bfs_loop_result:
  assumes wf: "graph_invariant g" and small: "int (length (nodes g)) \<le> INT_MAX"
  shows "bfs_inv g s parent distance q \<Longrightarrow> (seen distance e \<longrightarrow> e \<in> set q) \<Longrightarrow>
    \<exists>found parent'.
      bfs_loop g (int e) parent distance (map int q) = Some (found, parent') \<and>
      (if found then \<exists>d' q'. bfs_inv g s parent' d' (e # q')
       else \<exists>d'. bfs_inv g s parent' d' [] \<and> \<not> seen d' e)"
proof (induction "bfs_measure distance q" arbitrary: parent distance q rule: less_induct)
  case less
  show ?case
  proof (cases q)
    case Nil
    with less.prems show ?thesis
      by (subst bfs_loop.simps) auto
  next
    case (Cons c q')
    show ?thesis
    proof (cases "c = e")
      case True
      with Cons less.prems(1) show ?thesis
        by (subst bfs_loop.simps) auto
    next
      case False
      from less.prems(1) have inv: "bfs_inv g s parent distance (c # q')" by (simp add: Cons)
      from bfs_inv_lengths [OF inv] bfs_inv_queue_seen [OF inv, of c]
      have c: "c < length (nodes g)" by (simp add: seen_def)
      then have at: "vec_at (nodes g) (int c) = Some (nodes g ! c)" by (simp add: vec_at_def)
      have fr: "\<forall>nb \<in> set (getFriends g (nodes g ! c)).
                  nb \<in> set (nodes g) \<and> adj g c (pos (nodes g) nb)"
        using friends_adj [OF wf c] by blast
      from visit_neighbors_inv [OF small inv fr]
      obtain parent' distance' q'' where
        r: "visit_neighbors (nodes g) (getFriends g (nodes g ! c)) (int c) parent distance (map int q')
              = Some (parent', distance', map int q'')"
        and i: "bfs_inv g s parent' distance' (c # q'')"
        and a: "\<forall>nb \<in> set (getFriends g (nodes g ! c)). seen distance' (pos (nodes g) nb)"
        and n: "\<forall>i. seen distance' i \<longrightarrow> seen distance i \<or> i \<in> set q''"
        and sub: "set q' \<subseteq> set q''"
        and ms: "bfs_measure distance' q'' \<le> bfs_measure distance q'" by blast
      have "\<forall>j. adj g c j \<longrightarrow> seen distance' j"
        using a adj_friends [OF wf] by metis
      from bfs_inv_dequeue [OF i this] have inv': "bfs_inv g s parent' distance' q''" .
      have tgt: "seen distance' e \<longrightarrow> e \<in> set q''"
        using n less.prems(2) False sub by (auto simp: Cons)
      have "bfs_measure distance' q'' < bfs_measure distance q"
        using ms by (simp add: Cons bfs_measure_def)
      from less.hyps [OF this inv' tgt]
      obtain found p where
        "bfs_loop g (int e) parent' distance' (map int q'') = Some (found, p)"
        "if found then \<exists>d' q'. bfs_inv g s p d' (e # q')
         else \<exists>d'. bfs_inv g s p d' [] \<and> \<not> seen d' e" by blast
      with False at r show ?thesis
        by (subst bfs_loop.simps) (auto simp: Cons)
    qed
  qed
qed

lemma pos_Cons: "pos (n # ns) a = (if n = a then 0 else Suc (pos ns a))"
  by (simp add: pos_def)

lemma find_endpoints_eq:
  "0 \<le> j \<Longrightarrow> distinct ns \<Longrightarrow> (si \<noteq> -1 \<longrightarrow> a \<notin> set ns) \<Longrightarrow> (ei \<noteq> -1 \<longrightarrow> b \<notin> set ns) \<Longrightarrow>
   find_endpoints ns a b j si ei =
     (if a \<in> set ns then j + int (pos ns a) else si, if b \<in> set ns then j + int (pos ns b) else ei)"
proof (induction ns arbitrary: j si ei)
  case Nil
  then show ?case by simp
next
  case (Cons n ns)
  let ?si = "if n = a then j else si" and ?ei = "if n = b then j else ei"
  show ?case
  proof (cases "?si \<noteq> -1 \<and> ?ei \<noteq> -1")
    case True
    with Cons.prems show ?thesis by (auto simp: pos_Cons)
  next
    case False
    have "find_endpoints ns a b (j + 1) ?si ?ei =
       (if a \<in> set ns then (j + 1) + int (pos ns a) else ?si,
        if b \<in> set ns then (j + 1) + int (pos ns b) else ?ei)"
      using Cons.prems by (intro Cons.IH) auto
    moreover have "find_endpoints (n # ns) a b j si ei = find_endpoints ns a b (j + 1) ?si ?ei"
      using False by (auto simp: Let_def)
    ultimately show ?thesis using Cons.prems by (auto simp: pos_Cons)
  qed
qed

lemma bfs_inv_init:
  assumes "s < length (nodes g)"
  shows "bfs_inv g s (replicate (length (nodes g)) (-1))
           ((replicate (length (nodes g)) INT_MAX)[s := 0]) [s]"
proof -
  let ?d = "(replicate (length (nodes g)) INT_MAX)[s := 0]"
  have seen: "seen ?d i \<longleftrightarrow> i = s" for i
    using assms by (auto simp: seen_def nth_list_update INT_MAX_def)
  then have "{j. seen ?d j} = {s}" by auto
  then have card: "card {j. seen ?d j} = 1" by simp
  have ds: "?d ! s = 0" using assms by simp
  show ?thesis
    unfolding bfs_inv_def using assms ds by (simp add: seen card)
qed

lemma follow_parents_chain:
  assumes inv: "bfs_inv g s parent d Q"
  shows "seen d i \<Longrightarrow>
    \<exists>ch. follow_parents parent (int i) acc = Some (acc @ map int ch) \<and>
         ch \<noteq> [] \<and> hd ch = i \<and> last ch = s \<and> int (length ch) = d ! i + 1 \<and>
         (\<forall>x \<in> set ch. x < length (nodes g)) \<and>
         successively (\<lambda>a b. adj g b a) ch"
proof (induction "nat (d ! i)" arbitrary: i acc rule: less_induct)
  case less
  from inv have len: "length parent = length (nodes g)" "length d = length (nodes g)"
    and s: "seen d s" "d ! s = 0" "parent ! s = -1"
    and bnd: "\<And>i. seen d i \<Longrightarrow> 0 \<le> d ! i"
    and par: "\<And>i. seen d i \<Longrightarrow> i \<noteq> s \<Longrightarrow>
          \<exists>p. parent ! i = int p \<and> seen d p \<and> d ! i = d ! p + 1 \<and> adj g p i"
    unfolding bfs_inv_def by blast+
  from less.prems len have i: "i < length (nodes g)" by (simp add: seen_def)
  then have at: "vec_at parent (int i) = Some (parent ! i)" using len by (simp add: vec_at_def)
  show ?case
  proof (cases "i = s")
    case True
    have "follow_parents parent (int i) acc = Some (acc @ map int [s])"
      using at s True
      by (subst follow_parents.simps, subst follow_parents.simps) simp
    with s i True show ?thesis by (intro exI [of _ "[s]"]) simp
  next
    case False
    from par [OF less.prems False] obtain p where p: "parent ! i = int p" "seen d p"
      "d ! i = d ! p + 1" "adj g p i" by blast
    from bnd [OF p(2)] p(3) have "nat (d ! p) < nat (d ! i)" by simp
    from less.hyps [OF this p(2), of "acc @ [int i]"]
    obtain ch where ch: "follow_parents parent (int p) (acc @ [int i]) = Some ((acc @ [int i]) @ map int ch)"
      "ch \<noteq> []" "hd ch = p" "last ch = s" "int (length ch) = d ! p + 1"
      "\<forall>x \<in> set ch. x < length (nodes g)" "successively (\<lambda>a b. adj g b a) ch" by blast
    have "follow_parents parent (int i) acc = Some (acc @ map int (i # ch))"
      using at p(1) ch(1) by (subst follow_parents.simps) simp
    moreover have "successively (\<lambda>a b. adj g b a) (i # ch)"
      using ch(2,3,7) p(4) by (cases ch) auto
    ultimately show ?thesis
      using ch p(3) i by (intro exI [of _ "i # ch"]) simp
  qed
qed

lemma path_names_map:
  "\<forall>x \<in> set xs. x < length ns \<Longrightarrow>
   path_names ns (map int xs) = Some (map (\<lambda>x. getName (ns ! x)) xs)"
  by (induction xs) (simp_all add: vec_at_def)

lemma adj_areConnected:
  "adj g a b \<Longrightarrow> areConnected g (getName (nodes g ! a)) (getName (nodes g ! b))"
  by (auto simp: adj_def areConnected_iff)

lemma areConnected_adj:
  assumes wf: "graph_invariant g" and c: "areConnected g x y"
  shows "Node x \<in> set (nodes g) \<and> Node y \<in> set (nodes g) \<and>
         adj g (pos (nodes g) (Node x)) (pos (nodes g) (Node y))"
proof -
  from c obtain e where e: "e \<in> set (edgeList g)" "connects e (Node x) (Node y)"
    by (auto simp: areConnected_iff)
  with wf have "Node x \<in> set (nodes g)" "Node y \<in> set (nodes g)"
    by (auto simp: graph_invariant_def connects_def)
  with e show ?thesis by (auto simp: adj_def pos_less nth_pos)
qed

lemma walk_seen:
  assumes wf: "graph_invariant g" and inv: "bfs_inv g s parent d Q"
  shows "successively (areConnected g) (x # p) \<Longrightarrow> Node x \<in> set (nodes g) \<Longrightarrow>
    seen d (pos (nodes g) (Node x)) \<Longrightarrow>
    (\<forall>u. seen d u \<longrightarrow> d ! u < d ! pos (nodes g) (Node x) + int (length p) \<longrightarrow> u \<notin> set Q) \<Longrightarrow>
    Node (last (x # p)) \<in> set (nodes g) \<and> seen d (pos (nodes g) (Node (last (x # p)))) \<and>
    d ! pos (nodes g) (Node (last (x # p))) \<le> d ! pos (nodes g) (Node x) + int (length p)"
proof (induction p arbitrary: x)
  case Nil
  then show ?case by simp
next
  case (Cons y p)
  let ?v = "pos (nodes g) (Node x)" and ?v' = "pos (nodes g) (Node y)"
  from inv have
    clos: "\<And>i j. seen d i \<Longrightarrow> i \<notin> set Q \<Longrightarrow> adj g i j \<Longrightarrow> seen d j"
    and edge: "\<And>i j. seen d i \<Longrightarrow> seen d j \<Longrightarrow> adj g i j \<Longrightarrow> d ! j \<le> d ! i + 1"
    unfolding bfs_inv_def by blast+
  from Cons.prems(1) have c: "areConnected g x y" and rest: "successively (areConnected g) (y # p)"
    by simp_all
  from areConnected_adj [OF wf c] have y: "Node y \<in> set (nodes g)" and a: "adj g ?v ?v'" by simp_all
  from Cons.prems(3,4) have "?v \<notin> set Q" by auto
  from clos [OF Cons.prems(3) this a] have sy: "seen d ?v'" .
  from edge [OF Cons.prems(3) sy a] have le: "d ! ?v' \<le> d ! ?v + 1" .
  have "\<forall>u. seen d u \<longrightarrow> d ! u < d ! ?v' + int (length p) \<longrightarrow> u \<notin> set Q"
    using Cons.prems(4) le by auto
  from Cons.IH [OF rest y sy this] le show ?case by auto
qed

lemma bfs_inv_head_min:
  "bfs_inv g s parent d (e # q) \<Longrightarrow> u \<in> set (e # q) \<Longrightarrow> d ! e \<le> d ! u"
  unfolding bfs_inv_def by auto

lemma bfs_inv_start: "bfs_inv g s parent d Q \<Longrightarrow> seen d s \<and> d ! s = 0"
  by (simp add: bfs_inv_def)

lemma shortestPath_unfold:
  assumes wf: "graph_invariant g"
    and ex: "nodeExists g (Node from)" "nodeExists g (Node to)"
  shows "shortestPath g from to =
     bfs_loop g (int (pos (nodes g) (Node to))) (replicate (length (nodes g)) (-1))
        ((replicate (length (nodes g)) INT_MAX)[pos (nodes g) (Node from) := 0])
        (map int [pos (nodes g) (Node from)]) \<bind>
     (\<lambda>(found, parent).
        if found
        then follow_parents parent (int (pos (nodes g) (Node to))) [] \<bind>
             (\<lambda>index_path. path_names (nodes g) (rev index_path))
        else Some [])"
proof -
  let ?s = "pos (nodes g) (Node from)"
  from ex have mem: "Node from \<in> set (nodes g)" "Node to \<in> set (nodes g)"
    by (simp_all add: nodeExists_iff)
  have fe: "find_endpoints (nodes g) (Node from) (Node to) 0 (-1) (-1)
          = (int ?s, int (pos (nodes g) (Node to)))"
    using find_endpoints_eq [of 0 "nodes g" "-1" "Node from" "-1" "Node to"]
      invariant_distinct [OF wf] mem by simp
  have s: "?s < length (nodes g)" by (rule pos_less [OF mem(1)])
  have rep: "(replicate (length (nodes g)) (-1 :: int))[?s := -1] = replicate (length (nodes g)) (-1)"
    using s by (intro nth_equalityI) (auto simp: nth_list_update)
  show ?thesis
    using ex s by (simp add: shortestPath_def fe vec_set_def rep Let_def)
qed

lemma successively_adj_names:
  assumes "successively (\<lambda>a b. adj g b a) ch"
  shows "successively (areConnected g) (map (\<lambda>x. getName (nodes g ! x)) (rev ch))"
proof -
  from assms have "successively (adj g) (rev ch)" by (simp add: successively_rev)
  then have "successively (\<lambda>a b. areConnected g (getName (nodes g ! a)) (getName (nodes g ! b))) (rev ch)"
    by (rule successively_mono) (simp add: adj_areConnected)
  then show ?thesis by (simp add: successively_map)
qed


section \<open>The code's search and the search on Persons\<close>

lemma visit_sim:
  assumes wf: "graph_invariant g" and small: "int (length (nodes g)) \<le> INT_MAX"
  shows "bfs_inv g s parent distance (c # q) \<Longrightarrow>
    bfs_rel (nodes g) parent distance pmap visited \<Longrightarrow>
    \<forall>nb \<in> set nbs. nb \<in> set (nodes g) \<and> adj g c (pos (nodes g) nb) \<Longrightarrow>
    \<exists>parent' distance' q' pmap' visited'.
       visit_neighbors (nodes g) nbs (int c) parent distance (map int q)
         = Some (parent', distance', map int q') \<and>
       spec_visit nbs (nodes g ! c) pmap visited (map (nth (nodes g)) q)
         = (pmap', visited', map (nth (nodes g)) q') \<and>
       bfs_rel (nodes g) parent' distance' pmap' visited'"
proof (induction nbs arbitrary: parent distance q pmap visited)
  case Nil
  then show ?case by auto
next
  case (Cons nb nbs)
  let ?ns = "nodes g"
  let ?w = "pos ?ns nb"
  have dist: "distinct ?ns" by (rule invariant_distinct [OF wf])
  from Cons.prems have nb: "nb \<in> set ?ns" and adj: "adj g c ?w"
    and rest: "\<forall>nb \<in> set nbs. nb \<in> set ?ns \<and> adj g c (pos ?ns nb)" by auto
  from bfs_inv_lengths [OF Cons.prems(1)]
  have len: "length parent = length ?ns" "length distance = length ?ns" by simp_all
  from adj have w: "?w < length ?ns" and c: "c < length ?ns" by (simp_all add: adj_def)
  have nw: "?ns ! ?w = nb" by (rule nth_pos [OF nb])
  have fi: "find_index ?ns nb 0 = int ?w" by (rule find_index_pos [OF nb])
  have atw: "vec_at distance (int ?w) = Some (distance ! ?w)" using w len by (simp add: vec_at_def)
  from Cons.prems(2) have vis: "visited = {?ns ! i |i. seen distance i}"
    and pm: "\<And>i. i < length ?ns \<Longrightarrow> (parent ! i = -1 \<and> pmap (?ns ! i) = None) \<or>
        (\<exists>p < length ?ns. parent ! i = int p \<and> pmap (?ns ! i) = Some (?ns ! p))"
    unfolding bfs_rel_def by blast+
  have mem: "nb \<in> visited \<longleftrightarrow> seen distance ?w"
  proof
    assume "nb \<in> visited"
    then obtain i where i: "seen distance i" "?ns ! i = nb" by (auto simp: vis)
    then have "i < length ?ns" using len by (simp add: seen_def)
    with dist i(2) have "pos ?ns nb = i" using pos_nth by blast
    with i show "seen distance ?w" by simp
  next
    assume "seen distance ?w"
    with nw show "nb \<in> visited" unfolding vis by (intro CollectI exI [of _ ?w]) simp
  qed
  show ?case
  proof (cases "seen distance ?w")
    case True
    then have ne: "distance ! ?w \<noteq> INT_MAX" by (simp add: seen_def)
    from Cons.IH [OF Cons.prems(1,2) rest]
    obtain parent' distance' q' pmap' visited' where
      r: "visit_neighbors ?ns nbs (int c) parent distance (map int q)
            = Some (parent', distance', map int q')"
      and sp: "spec_visit nbs (?ns ! c) pmap visited (map (nth ?ns) q)
            = (pmap', visited', map (nth ?ns) q')"
      and rel: "bfs_rel ?ns parent' distance' pmap' visited'" by blast
    have "visit_neighbors ?ns (nb # nbs) (int c) parent distance (map int q)
            = Some (parent', distance', map int q')"
      using fi atw ne r by simp
    moreover have "spec_visit (nb # nbs) (?ns ! c) pmap visited (map (nth ?ns) q)
            = (pmap', visited', map (nth ?ns) q')"
      using True mem sp by simp
    ultimately show ?thesis using rel by blast
  next
    case False
    then have eq: "distance ! ?w = INT_MAX" using w len by (simp add: seen_def)
    from bfs_inv_queue_seen [OF Cons.prems(1), of c] have sc: "seen distance c" by simp
    then have dc: "distance ! c \<noteq> INT_MAX" by (simp add: seen_def)
    have atc: "vec_at distance (int c) = Some (distance ! c)" using c len by (simp add: vec_at_def)
    have setd: "vec_set distance (int ?w) (distance ! c + 1) = Some (distance[?w := distance ! c + 1])"
      and setp: "vec_set parent (int ?w) (int c) = Some (parent[?w := int c])"
      using w len by (simp_all add: vec_set_def)
    let ?d = "distance[?w := distance ! c + 1]" and ?p = "parent[?w := int c]"
    have inv': "bfs_inv g s ?p ?d (c # q @ [?w])"
      by (rule bfs_inv_visit [OF Cons.prems(1) adj False small])
    from bfs_inv_queue_seen [OF inv', of ?w] have sw: "seen ?d ?w" by simp
    then have v: "distance ! c + 1 \<noteq> INT_MAX" using w len by (simp add: seen_def)
    have seen': "seen ?d i \<longleftrightarrow> seen distance i \<or> i = ?w" for i
      using w len v by (auto simp: seen_def nth_list_update)
    have rel': "bfs_rel ?ns ?p ?d (pmap(nb \<mapsto> ?ns ! c)) (insert nb visited)"
      unfolding bfs_rel_def
    proof (intro conjI allI impI)
      have "{?ns ! i |i. seen ?d i} = insert (?ns ! ?w) {?ns ! i |i. seen distance i}"
        by (auto simp: seen')
      then show "insert nb visited = {?ns ! i |i. seen ?d i}"
        by (simp add: nw vis)
    next
      fix i assume i: "i < length ?ns"
      show "(?p ! i = -1 \<and> (pmap(nb \<mapsto> ?ns ! c)) (?ns ! i) = None) \<or>
            (\<exists>p < length ?ns. ?p ! i = int p \<and> (pmap(nb \<mapsto> ?ns ! c)) (?ns ! i) = Some (?ns ! p))"
      proof (cases "i = ?w")
        case True
        with w len c nw show ?thesis by auto
      next
        case False
        with dist i w nw have "?ns ! i \<noteq> nb" by (auto simp: nth_eq_iff_index_eq)
        with False pm [OF i] show ?thesis by simp
      qed
    qed
    from Cons.IH [OF inv' rel' rest]
    obtain parent' distance' q' pmap' visited' where
      r: "visit_neighbors ?ns nbs (int c) ?p ?d (map int (q @ [?w]))
            = Some (parent', distance', map int q')"
      and sp: "spec_visit nbs (?ns ! c) (pmap(nb \<mapsto> ?ns ! c)) (insert nb visited)
                 (map (nth ?ns) (q @ [?w])) = (pmap', visited', map (nth ?ns) q')"
      and rel: "bfs_rel ?ns parent' distance' pmap' visited'" by blast
    have "visit_neighbors ?ns (nb # nbs) (int c) parent distance (map int q)
            = Some (parent', distance', map int q')"
      using fi atw eq atc dc setd setp r by simp
    moreover have "spec_visit (nb # nbs) (?ns ! c) pmap visited (map (nth ?ns) q)
            = (pmap', visited', map (nth ?ns) q')"
      using False mem sp nw by simp
    ultimately show ?thesis using rel by blast
  qed
qed

lemma bfs_sim:
  assumes wf: "graph_invariant g" and small: "int (length (nodes g)) \<le> INT_MAX"
    and e: "e < length (nodes g)"
  shows "bfs_inv g s parent distance q \<Longrightarrow> bfs_rel (nodes g) parent distance pmap visited \<Longrightarrow>
    (seen distance e \<longrightarrow> e \<in> set q) \<Longrightarrow>
    \<exists>found parent'.
      bfs_loop g (int e) parent distance (map int q) = Some (found, parent') \<and>
      (if found
       then \<exists>d' Q pmap' visited'.
              bfs_inv g s parent' d' Q \<and> seen d' e \<and> bfs_rel (nodes g) parent' d' pmap' visited' \<and>
              spec_bfs (getFriends g) (nodes g ! e) pmap visited (map (nth (nodes g)) q)
                = Some (Some pmap')
       else spec_bfs (getFriends g) (nodes g ! e) pmap visited (map (nth (nodes g)) q) = Some None)"
proof (induction "bfs_measure distance q" arbitrary: parent distance q pmap visited rule: less_induct)
  case less
  let ?ns = "nodes g"
  show ?case
  proof (cases q)
    case Nil
    have "bfs_loop g (int e) parent distance (map int q) = Some (False, parent)"
      using Nil by (subst bfs_loop.simps) simp
    moreover have "spec_bfs (getFriends g) (?ns ! e) pmap visited (map (nth ?ns) q) = Some None"
      using Nil by (subst spec_bfs.simps) simp
    ultimately show ?thesis by auto
  next
    case (Cons c q')
    from less.prems(1) have inv: "bfs_inv g s parent distance (c # q')" by (simp add: Cons)
    from bfs_inv_lengths [OF inv] bfs_inv_queue_seen [OF inv, of c]
    have c: "c < length ?ns" and sc: "seen distance c" by (simp_all add: seen_def)
    have same: "?ns ! c = ?ns ! e \<longleftrightarrow> c = e"
      using invariant_distinct [OF wf] c e by (simp add: nth_eq_iff_index_eq)
    show ?thesis
    proof (cases "c = e")
      case True
      have "bfs_loop g (int e) parent distance (map int q) = Some (True, parent)"
        using True by (subst bfs_loop.simps) (simp add: Cons)
      moreover have "spec_bfs (getFriends g) (?ns ! e) pmap visited (map (nth ?ns) q)
                       = Some (Some pmap)"
        using True by (subst spec_bfs.simps) (simp add: Cons)
      ultimately show ?thesis using inv sc less.prems(2) True by auto
    next
      case False
      have at: "vec_at ?ns (int c) = Some (?ns ! c)" using c by (simp add: vec_at_def)
      have fr: "\<forall>nb \<in> set (getFriends g (?ns ! c)). nb \<in> set ?ns \<and> adj g c (pos ?ns nb)"
        using friends_adj [OF wf c] by blast
      from visit_neighbors_inv [OF small inv fr]
      obtain parent' distance' q'' where
        r: "visit_neighbors ?ns (getFriends g (?ns ! c)) (int c) parent distance (map int q')
              = Some (parent', distance', map int q'')"
        and i: "bfs_inv g s parent' distance' (c # q'')"
        and a: "\<forall>nb \<in> set (getFriends g (?ns ! c)). seen distance' (pos ?ns nb)"
        and n: "\<forall>i. seen distance' i \<longrightarrow> seen distance i \<or> i \<in> set q''"
        and sub: "set q' \<subseteq> set q''"
        and ms: "bfs_measure distance' q'' \<le> bfs_measure distance q'" by blast
      from visit_sim [OF wf small inv less.prems(2) fr]
      obtain p2 d2 q2 pmap' visited' where
        r2: "visit_neighbors ?ns (getFriends g (?ns ! c)) (int c) parent distance (map int q')
              = Some (p2, d2, map int q2)"
        and sp: "spec_visit (getFriends g (?ns ! c)) (?ns ! c) pmap visited (map (nth ?ns) q')
              = (pmap', visited', map (nth ?ns) q2)"
        and rel: "bfs_rel ?ns p2 d2 pmap' visited'" by blast
      from r r2 have "p2 = parent'" "d2 = distance'" "map int q2 = map int q''" by simp_all
      then have eqs: "p2 = parent'" "d2 = distance'" "q2 = q''"
        by (simp_all add: inj_map_eq_map [OF inj_of_nat])
      have "\<forall>j. adj g c j \<longrightarrow> seen distance' j"
        using a adj_friends [OF wf] by metis
      from bfs_inv_dequeue [OF i this] have inv': "bfs_inv g s parent' distance' q''" .
      have tgt: "seen distance' e \<longrightarrow> e \<in> set q''"
        using n less.prems(3) False sub by (auto simp: Cons)
      have "bfs_measure distance' q'' < bfs_measure distance q"
        using ms by (simp add: Cons bfs_measure_def)
      from less.hyps [OF this inv' _ tgt, of pmap' visited'] rel eqs
      obtain found p where
        l: "bfs_loop g (int e) parent' distance' (map int q'') = Some (found, p)"
        and post: "if found
         then \<exists>d' Q pm vis.
                bfs_inv g s p d' Q \<and> seen d' e \<and> bfs_rel ?ns p d' pm vis \<and>
                spec_bfs (getFriends g) (?ns ! e) pmap' visited' (map (nth ?ns) q'') = Some (Some pm)
         else spec_bfs (getFriends g) (?ns ! e) pmap' visited' (map (nth ?ns) q'') = Some None"
        by blast
      have code: "bfs_loop g (int e) parent distance (map int q) = Some (found, p)"
        using False at r l by (subst bfs_loop.simps) (simp add: Cons)
      have spec: "spec_bfs (getFriends g) (?ns ! e) pmap visited (map (nth ?ns) q)
           = spec_bfs (getFriends g) (?ns ! e) pmap' visited' (map (nth ?ns) q'')"
        using False same sp eqs by (subst spec_bfs.simps) (simp add: Cons)
      from code spec post show ?thesis by auto
    qed
  qed
qed

lemma trace_sim:
  assumes inv: "bfs_inv g s parent d Q" and rel: "bfs_rel (nodes g) parent d pmap visited"
  shows "seen d i \<Longrightarrow>
    \<exists>ch. follow_parents parent (int i) acc = Some (acc @ map int ch) \<and>
         (\<forall>x \<in> set ch. x < length (nodes g)) \<and>
         spec_trace pmap (nodes g ! i) acc' = Some (map (nth (nodes g)) (rev ch) @ acc')"
proof (induction "nat (d ! i)" arbitrary: i acc acc' rule: less_induct)
  case less
  let ?ns = "nodes g"
  from inv have len: "length parent = length ?ns" "length d = length ?ns"
    and s: "seen d s" "d ! s = 0" "parent ! s = -1"
    and bnd: "\<And>i. seen d i \<Longrightarrow> 0 \<le> d ! i"
    and par: "\<And>i. seen d i \<Longrightarrow> i \<noteq> s \<Longrightarrow>
          \<exists>p. parent ! i = int p \<and> seen d p \<and> d ! i = d ! p + 1 \<and> adj g p i"
    unfolding bfs_inv_def by blast+
  from rel have pm: "\<And>i. i < length ?ns \<Longrightarrow> (parent ! i = -1 \<and> pmap (?ns ! i) = None) \<or>
        (\<exists>p < length ?ns. parent ! i = int p \<and> pmap (?ns ! i) = Some (?ns ! p))"
    unfolding bfs_rel_def by blast
  from less.prems len have i: "i < length ?ns" by (simp add: seen_def)
  then have at: "vec_at parent (int i) = Some (parent ! i)" using len by (simp add: vec_at_def)
  show ?case
  proof (cases "i = s")
    case True
    from pm [OF i] s(3) True have none: "pmap (?ns ! i) = None" by auto
    have "follow_parents parent (int i) acc = Some (acc @ map int [s])"
      using at s True
      by (subst follow_parents.simps, subst follow_parents.simps) simp
    moreover have "spec_trace pmap (?ns ! i) acc' = Some (map (nth ?ns) (rev [s]) @ acc')"
      using none True by (subst spec_trace.simps) simp
    ultimately show ?thesis using i True by (intro exI [of _ "[s]"]) simp
  next
    case False
    from par [OF less.prems False] obtain p where p: "parent ! i = int p" "seen d p"
      "d ! i = d ! p + 1" "adj g p i" by blast
    from pm [OF i] p(1) have some: "pmap (?ns ! i) = Some (?ns ! p)" by auto
    from bnd [OF p(2)] p(3) have "nat (d ! p) < nat (d ! i)" by simp
    from less.hyps [OF this p(2), of "acc @ [int i]" "?ns ! i # acc'"]
    obtain ch where ch: "follow_parents parent (int p) (acc @ [int i]) = Some ((acc @ [int i]) @ map int ch)"
      "\<forall>x \<in> set ch. x < length ?ns"
      "spec_trace pmap (?ns ! p) (?ns ! i # acc') = Some (map (nth ?ns) (rev ch) @ ?ns ! i # acc')"
      by blast
    have "follow_parents parent (int i) acc = Some (acc @ map int (i # ch))"
      using at p(1) ch(1) by (subst follow_parents.simps) simp
    moreover have "spec_trace pmap (?ns ! i) acc' = Some (map (nth ?ns) (rev (i # ch)) @ acc')"
      using some ch(3) by (subst spec_trace.simps) simp
    ultimately show ?thesis using ch(2) i by (intro exI [of _ "i # ch"]) simp
  qed
qed


section \<open>The store invariant\<close>

text \<open>Claim C7. Starting from the empty store, every sequence of calls to \<open>addPerson\<close>,
  \<open>removePerson\<close>, \<open>addFriend\<close> and \<open>removeFriend\<close> leaves a store in which no two
  Persons share a name, no two Friendships connect the same unordered pair, and the two
  endpoints of every Friendship are distinct Persons that are both present.\<close>

theorem mutators_preserve_invariant: "graph_invariant (run empty_graph ms)"
  by (rule inv_run [OF inv_empty])

theorem mutators_preserve_invariant_witness:
  "edgeList demo_graph \<noteq> [] \<and> graph_invariant demo_graph"
  using mutators_preserve_invariant [of "[AddPerson ''A'', AddPerson ''B'', AddPerson ''C'', AddPerson ''D'',
      AddFriend ''A'' ''C'', AddFriend ''A'' ''B'', AddFriend ''B'' ''D'', AddFriend ''C'' ''D'']"]
  by (simp add: demo_graph_def [symmetric]) (simp add: demo_graph_eq)


section \<open>Removing a Person\<close>

text \<open>Claim C8. When \<open>p\<close> is present, \<open>removePerson p\<close> returns true, and afterwards
  \<open>areConnected p q\<close> is false for every \<open>q\<close> and \<open>p\<close> is in no \<open>getFriends\<close> result; when
  \<open>p\<close> is absent, the call returns false and the store is unchanged.\<close>

theorem removePerson_spec:
  "(nodeExists g (Node p) \<longrightarrow>
      fst (removePerson g p) = True \<and>
      (\<forall>q. \<not> areConnected (snd (removePerson g p)) p q) \<and>
      (\<forall>n. Node p \<notin> set (getFriends (snd (removePerson g p)) n))) \<and>
   (\<not> nodeExists g (Node p) \<longrightarrow> removePerson g p = (False, g))"
  by (auto simp: removePerson_def Let_def areConnected_iff in_getFriends_iff connects_def
      nodeExists_iff)

theorem removePerson_spec_witness:
  "nodeExists demo_graph (Node ''B'') \<and>
   fst (removePerson demo_graph ''B'') = True \<and>
   edgeList (snd (removePerson demo_graph ''B'')) =
     [Edge (Node ''A'') (Node ''C''), Edge (Node ''C'') (Node ''D'')] \<and>
   (\<forall>q. \<not> areConnected (snd (removePerson demo_graph ''B'')) ''B'' q) \<and>
   (\<forall>n. Node ''B'' \<notin> set (getFriends (snd (removePerson demo_graph ''B'')) n)) \<and>
   \<not> nodeExists demo_graph (Node ''Z'') \<and>
   removePerson demo_graph ''Z'' = (False, demo_graph)"
proof -
  have ex: "nodeExists demo_graph (Node ''B'')" and nex: "\<not> nodeExists demo_graph (Node ''Z'')"
    by (simp_all add: demo_graph_eq nodeExists_def)
  have el: "edgeList (snd (removePerson demo_graph ''B'')) =
     [Edge (Node ''A'') (Node ''C''), Edge (Node ''C'') (Node ''D'')]"
    by (simp add: demo_graph_eq removePerson_def nodeExists_def)
  from removePerson_spec [of demo_graph "''B''"] removePerson_spec [of demo_graph "''Z''"] ex nex el
  show ?thesis by simp
qed


section \<open>The order of \<open>getFriends\<close>\<close>

text \<open>Claim C10. \<open>getFriends p\<close> is the list of opposite endpoints of the Friendships
  incident to \<open>p\<close>, in the order of the Friendship collection (the order of insertion, since
  \<open>addFriend\<close> appends and the removals keep the relative order), whatever the order of the
  Person collection.\<close>

theorem getFriends_edge_order:
  "getFriends g p = map (opposite p) (filter (incident p) (edgeList g))"
  by (simp add: getFriends_def getFriends_loop_acc)

theorem getFriends_edge_order_witness:
  "getFriends demo_graph (Node ''A'') = [Node ''C'', Node ''B''] \<and>
   filter (\<lambda>n. n \<in> {Node ''B'', Node ''C''}) (nodes demo_graph) = [Node ''B'', Node ''C'']"
proof -
  have "getFriends demo_graph (Node ''A'') =
          map (opposite (Node ''A'')) (filter (incident (Node ''A'')) (edgeList demo_graph))"
    by (rule getFriends_edge_order)
  also have "\<dots> = [Node ''C'', Node ''B'']"
    by (simp add: demo_graph_eq incident_def opposite_def)
  finally show ?thesis by (simp add: demo_graph_eq)
qed


section \<open>A path from a Person to itself\<close>

text \<open>Claim C6. \<open>shortestPath x x\<close> returns \<open>[x]\<close> when a Person named \<open>x\<close> is present, and
  the empty sequence when it is not.\<close>

theorem shortestPath_same:
  "shortestPath g x x = Some (if nodeExists g (Node x) then [x] else [])"
proof (cases "nodeExists g (Node x)")
  case False
  then show ?thesis by (simp add: shortestPath_def)
next
  case True
  define i where "i = int (pos (nodes g) (Node x))"
  from True have mem: "Node x \<in> set (nodes g)" by (auto simp: nodeExists_def find_None_iff)
  from pos_less [OF mem] have i: "0 \<le> i" "i < int (length (nodes g))"
    by (simp_all add: i_def)
  from nth_pos [OF mem] have nth: "nodes g ! nat i = Node x"
    by (simp add: i_def)
  have fe: "find_endpoints (nodes g) (Node x) (Node x) 0 (-1) (-1) = (i, i)"
    using mem by (simp add: find_endpoints_same find_index_eq i_def)
  have rep: "(replicate (length (nodes g)) (-1 :: int))[nat i := -1] = replicate (length (nodes g)) (-1)"
    using i by (intro nth_equalityI) (auto simp: nth_list_update)
  have loop: "bfs_loop g i (replicate (length (nodes g)) (-1))
                ((replicate (length (nodes g)) INT_MAX)[nat i := 0]) [i]
              = Some (True, replicate (length (nodes g)) (-1))"
    by (subst bfs_loop.simps) simp
  have fp: "follow_parents (replicate (length (nodes g)) (-1)) i [] = Some [i]"
    using i by (subst follow_parents.simps, subst follow_parents.simps) (simp add: vec_at_def)
  show ?thesis
    using True i nth
    by (simp add: shortestPath_def fe vec_set_simps rep loop fp vec_at_simps)
qed

theorem shortestPath_same_witness:
  "nodeExists demo_graph (Node ''C'') \<and> shortestPath demo_graph ''C'' ''C'' = Some [''C''] \<and>
   \<not> nodeExists demo_graph (Node ''Z'') \<and> shortestPath demo_graph ''Z'' ''Z'' = Some []"
proof -
  have "nodeExists demo_graph (Node ''C'')" "\<not> nodeExists demo_graph (Node ''Z'')"
    by (simp_all add: demo_graph_eq nodeExists_def)
  with shortestPath_same [of demo_graph "''C''"] shortestPath_same [of demo_graph "''Z''"]
  show ?thesis by simp
qed

section \<open>The exclusion set and the endpoints\<close>

text \<open>Claim C1 says that no excluded name is ever in the result of \<open>shortestPathAvoiding\<close>
  and that the result is empty when \<open>from\<close> or \<open>to\<close> is excluded. The search tests the
  blacklist only when it is about to enqueue a neighbor; the start node is enqueued without
  the test. In the store with the Friendship A-B, the call with \<open>from = A\<close>, \<open>to = B\<close> and
  A excluded returns the path A, B; with \<open>from = to = A\<close> and A excluded it returns A.\<close>

theorem shortestPathAvoiding_excluded_start:
  "shortestPathAvoiding demo_graph ''A'' ''B'' [''A''] = Some [''A'', ''B''] \<and>
   shortestPathAvoiding demo_graph ''A'' ''A'' [''A''] = Some [''A'']"
  unfolding demo_graph_eq by code_simp

theorem shortestPathAvoiding_excluded_start_witness:
  "nodeExists demo_graph (Node ''A'') \<and> nodeExists demo_graph (Node ''B'') \<and>
   ''A'' \<in> set [''A''] \<and>
   shortestPathAvoiding demo_graph ''A'' ''B'' [''A''] = Some [''A'', ''B'']"
proof -
  have "nodeExists demo_graph (Node ''A'')" "nodeExists demo_graph (Node ''B'')"
    by (simp_all add: demo_graph_eq nodeExists_def)
  with shortestPathAvoiding_excluded_start show ?thesis by simp
qed

section \<open>Recommendations for a non-positive \<open>k\<close>\<close>

text \<open>Claim C2 says that \<open>recommendFriends name k\<close> is empty for every \<open>k \<le> 0\<close> and for an
  unknown name. For \<open>k = 0\<close> and for an unknown name it is (lemma
  \<open>recommendFriends_zero_or_unknown\<close>). For a negative \<open>k\<close> the comparison
  \<open>k < potentialFriends.size()\<close> converts \<open>k\<close> to an unsigned value above every size, the limit
  becomes the number of candidates, and all of them are returned: with \<open>k = -1\<close>, A is
  recommended D in the store below, whatever \<open>std::sort\<close> does within its contract.\<close>

theorem recommendFriends_negative_k:
  assumes "std_sort_contract std_sort"
  shows "recommendFriends std_sort demo_graph ''A'' (-1) = Some [''D'']"
proof -
  have ex: "nodeExists demo_graph (Node ''A'')"
    by (simp add: demo_graph_eq nodeExists_def)
  have pf: "potentialFriends_loop demo_graph (Node ''A'') (getFriends demo_graph (Node ''A''))
              (nodes demo_graph) [] = [(Node ''D'', 2)]"
    unfolding demo_graph_eq by code_simp
  have lim: "to_int (if to_size_t (-1) < int (length [(Node ''D'', 2::int)]) then to_size_t (-1)
                     else int (length [(Node ''D'', 2::int)])) = 1"
    by (simp add: to_size_t_def to_int_def)
  have top: "top_loop [(Node ''D'', 2)] 1 0 [] = Some [''D'']"
    by code_simp
  show ?thesis
    unfolding recommendFriends_unfold [OF ex] pf sort_singleton [OF assms swo_more_mutual] Let_def lim
    by (rule top)
qed

theorem recommendFriends_negative_k_witness:
  "std_sort_contract (tie_reversing_sort :: (Node \<times> int \<Rightarrow> Node \<times> int \<Rightarrow> bool) \<Rightarrow> _) \<and>
   recommendFriends tie_reversing_sort demo_graph ''A'' (-1) = Some [''D'']"
  using recommendFriends_negative_k [OF tie_reversing_sort_contract] tie_reversing_sort_contract
  by simp


section \<open>The ranking of recommendations\<close>

text \<open>Claim C3, as amended. For a present Person \<open>name\<close> and \<open>0 < k\<close> (a C++ \<open>int\<close>, so
  \<open>k \<le> INT_MAX\<close>), \<open>recommendFriends name k\<close> returns the first \<open>k\<close> names of a list that holds
  exactly the candidates (the Persons other than \<open>name\<close> that are not friends of \<open>name\<close> and
  have at least one mutual friend with it, each once) in descending order of mutual-friend
  count. The order among candidates with equal counts is whatever \<open>std::sort\<close> yields; it
  is not promised to be the Person insertion order (the theorem holds for every function
  that meets the contract of \<open>std::sort\<close>).\<close>

theorem recommendFriends_ranking:
  assumes "std_sort_contract std_sort" and "graph_invariant g"
    and "nodeExists g (Node name)" and "0 < k" and "k \<le> INT_MAX"
  shows "\<exists>ranked.
           recommendFriends std_sort g name k = Some (map (getName \<circ> fst) (take (nat k) ranked)) \<and>
           mset ranked = mset (candidates g (Node name)) \<and>
           sorted_wrt (\<lambda>a b. snd a \<ge> snd b) ranked"
proof -
  let ?ranked = "std_sort more_mutual (candidates g (Node name))"
  from assms(1) swo_more_mutual
  have "mset ?ranked = mset (candidates g (Node name))"
    and "sorted_wrt (\<lambda>a b. \<not> more_mutual b a) ?ranked"
    unfolding std_sort_contract_def by blast+
  moreover have "(\<lambda>a b. \<not> more_mutual b a) = (\<lambda>a b :: Node \<times> int. snd a \<ge> snd b)"
    by (auto simp: more_mutual_def fun_eq_iff)
  moreover have "recommendFriends std_sort g name k = Some (map (getName \<circ> fst) (take (nat k) ?ranked))"
    using recommendFriends_positive_k [OF assms(3-5)] potentialFriends_candidates [OF assms(2)]
    by simp
  ultimately show ?thesis by auto
qed

theorem recommendFriends_ranking_witness:
  "std_sort_contract (tie_reversing_sort :: (Node \<times> int \<Rightarrow> Node \<times> int \<Rightarrow> bool) \<Rightarrow> _) \<and>
   graph_invariant spec_graph \<and> nodeExists spec_graph (Node ''A'') \<and> (0::int) < 5 \<and> 5 \<le> INT_MAX \<and>
   candidates spec_graph (Node ''A'') = [(Node ''D'', 2), (Node ''E'', 1)] \<and>
   (\<exists>ranked.
      recommendFriends tie_reversing_sort spec_graph ''A'' 5
        = Some (map (getName \<circ> fst) (take (nat 5) ranked)) \<and>
      mset ranked = mset (candidates spec_graph (Node ''A'')) \<and>
      sorted_wrt (\<lambda>a b. snd a \<ge> snd b) ranked)"
proof -
  have inv: "graph_invariant spec_graph"
    unfolding spec_graph_def by (rule inv_run [OF inv_empty])
  have ex: "nodeExists spec_graph (Node ''A'')"
    unfolding spec_graph_def by code_simp
  have k: "(0::int) < 5" "5 \<le> INT_MAX" by (simp_all add: INT_MAX_def)
  have c: "candidates spec_graph (Node ''A'') = [(Node ''D'', 2), (Node ''E'', 1)]"
    unfolding spec_graph_def by code_simp
  from recommendFriends_ranking [OF tie_reversing_sort_contract inv ex k]
    tie_reversing_sort_contract inv ex k c
  show ?thesis by simp
qed


text \<open>Claim C3 as stated fails on the program built with GNU libstdc++. In the store
  \<open>crowd_graph\<close> the seventeen candidates P01 to P17 tie with one mutual friend each. A range
  of more than 16 elements is partitioned before the insertion sort: the median step swaps
  the first candidate with the ninth, and the partition, whose two scans stop at every
  element equal to the pivot, swaps the others pairwise from both ends. \<open>recommendFriends\<close>
  returns P09, P17, ..., P10, P01, P08, ..., P02, and P09 alone for \<open>k = 1\<close>; in Person
  insertion order the result would start with P01.\<close>

theorem recommendFriends_ties_counterexample:
  "graph_invariant crowd_graph \<and>
   map fst (candidates crowd_graph (Node ''A'')) = map Node crowd_names \<and>
   map snd (candidates crowd_graph (Node ''A'')) = replicate 17 1 \<and>
   map_option (map (getName \<circ> fst))
     (libstdcxx_sort_run more_mutual (candidates crowd_graph (Node ''A''))) =
     Some [''P09'', ''P17'', ''P16'', ''P15'', ''P14'', ''P13'', ''P12'', ''P11'', ''P10'',
           ''P01'', ''P08'', ''P07'', ''P06'', ''P05'', ''P04'', ''P03'', ''P02''] \<and>
   recommendFriends libstdcxx_sort crowd_graph ''A'' 17 =
     Some [''P09'', ''P17'', ''P16'', ''P15'', ''P14'', ''P13'', ''P12'', ''P11'', ''P10'',
           ''P01'', ''P08'', ''P07'', ''P06'', ''P05'', ''P04'', ''P03'', ''P02''] \<and>
   recommendFriends_spec crowd_graph ''A'' 17 = crowd_names \<and>
   recommendFriends libstdcxx_sort crowd_graph ''A'' 1 = Some [''P09''] \<and>
   recommendFriends_spec crowd_graph ''A'' 1 = [''P01'']"
proof -
  have "graph_invariant crowd_graph"
    unfolding crowd_graph_def by (rule inv_run [OF inv_empty])
  moreover have "map fst (candidates crowd_graph (Node ''A'')) = map Node crowd_names"
    by code_simp
  moreover have "map snd (candidates crowd_graph (Node ''A'')) = replicate 17 1"
    by code_simp
  moreover have "map_option (map (getName \<circ> fst))
     (libstdcxx_sort_run more_mutual (candidates crowd_graph (Node ''A''))) =
     Some [''P09'', ''P17'', ''P16'', ''P15'', ''P14'', ''P13'', ''P12'', ''P11'', ''P10'',
           ''P01'', ''P08'', ''P07'', ''P06'', ''P05'', ''P04'', ''P03'', ''P02'']"
    by code_simp
  moreover have "recommendFriends libstdcxx_sort crowd_graph ''A'' 17 =
     Some [''P09'', ''P17'', ''P16'', ''P15'', ''P14'', ''P13'', ''P12'', ''P11'', ''P10'',
           ''P01'', ''P08'', ''P07'', ''P06'', ''P05'', ''P04'', ''P03'', ''P02'']"
    by code_simp
  moreover have "recommendFriends_spec crowd_graph ''A'' 17 = crowd_names"
    by code_simp
  moreover have "recommendFriends libstdcxx_sort crowd_graph ''A'' 1 = Some [''P09'']"
    by code_simp
  moreover have "recommendFriends_spec crowd_graph ''A'' 1 = [''P01'']"
    by code_simp
  ultimately show ?thesis by simp
qed

section \<open>Saving, then loading\<close>

text \<open>Claim C9, as amended. For a store that satisfies the invariant and whose Person names
  contain no colon and no white space, saving to the textual format and loading the text
  (into any store: loading clears it first) gives a store with the same connectivity:
  \<open>areConnected x y\<close> holds after the reload exactly when it held before, for all \<open>x\<close>,
  \<open>y\<close>, whatever the order of the friends on a line.\<close>

theorem save_load_connectivity:
  assumes inv: "graph_invariant g" and valid: "\<forall>n \<in> set (nodes g). valid_name (getName n)"
  shows "areConnected (loadFromFile g0 (saveToFile g)) x y \<longleftrightarrow> areConnected g x y"
proof -
  let ?h = "g0\<lparr>nodes := [], edgeList := []\<rparr>"
  have h: "\<not> areConnected ?h x y" by (simp add: areConnected_def)
  have "areConnected (loadFromFile g0 (saveToFile g)) x y \<longleftrightarrow>
      (\<exists>n \<in> set (nodes g). \<exists>f \<in> set (getFriends g n). getName f \<noteq> [] \<and> getName f \<noteq> getName n \<and>
         ((x = getName n \<and> y = getName f) \<or> (x = getName f \<and> y = getName n)))"
    (is "_ \<longleftrightarrow> ?R")
    unfolding loadFromFile_def getlines_saveToFile [OF assms]
    using areConnected_load_lines [OF assms, of "nodes g" ?h x y] h by simp
  also have "?R \<longleftrightarrow> areConnected g x y"
  proof
    assume ?R
    then obtain n f where nf: "f \<in> set (getFriends g n)"
      and xy: "(x = getName n \<and> y = getName f) \<or> (x = getName f \<and> y = getName n)" by blast
    from nf obtain e where "e \<in> set (edgeList g)" "connects e n f"
      by (auto simp: in_getFriends_iff)
    with xy show "areConnected g x y"
      by (auto simp: areConnected_iff connects_def)
  next
    assume "areConnected g x y"
    then obtain e where e: "e \<in> set (edgeList g)" and c: "connects e (Node x) (Node y)"
      by (auto simp: areConnected_iff)
    from inv e have pres: "getFirstNode e \<in> set (nodes g)" "getSecondNode e \<in> set (nodes g)"
      and neq: "getFirstNode e \<noteq> getSecondNode e"
      by (auto simp: graph_invariant_def)
    from c pres neq have x: "Node x \<in> set (nodes g)" and y: "Node y \<in> set (nodes g)" and xy: "x \<noteq> y"
      by (auto simp: connects_def)
    have fxy: "Node y \<in> set (getFriends g (Node x))" and fyx: "Node x \<in> set (getFriends g (Node y))"
      using e c connects_sym [of e "Node x" "Node y"] by (auto simp: in_getFriends_iff)
    show ?R
    proof (cases "y = []")
      case False
      with x fxy xy show ?thesis by (intro bexI [of _ "Node x"] bexI [of _ "Node y"]) auto
    next
      case True
      with xy have "x \<noteq> []" by simp
      with y fyx xy show ?thesis by (intro bexI [of _ "Node y"] bexI [of _ "Node x"]) auto
    qed
  qed
  finally show ?thesis .
qed

theorem save_load_connectivity_witness:
  "graph_invariant demo_graph \<and> list_all (\<lambda>n. valid_name (getName n)) (nodes demo_graph) \<and>
   saveToFile demo_graph = ''A: C B'' @ [newline] @ ''B: A D'' @ [newline] @ ''C: A D'' @ [newline]
      @ ''D: B C'' @ [newline] \<and>
   areConnected demo_graph ''B'' ''D'' \<and>
   areConnected (loadFromFile empty_graph (saveToFile demo_graph)) ''B'' ''D'' \<and>
   \<not> areConnected (loadFromFile empty_graph (saveToFile demo_graph)) ''A'' ''D''"
proof -
  have inv: "graph_invariant demo_graph"
    unfolding demo_graph_def by (rule inv_run [OF inv_empty])
  have valid: "\<forall>n \<in> set (nodes demo_graph). valid_name (getName n)"
    by (simp add: demo_graph_eq valid_name_def isspace_def)
  have saved: "saveToFile demo_graph = ''A: C B'' @ [newline] @ ''B: A D'' @ [newline]
      @ ''C: A D'' @ [newline] @ ''D: B C'' @ [newline]"
    unfolding demo_graph_eq by code_simp
  have c: "areConnected demo_graph ''B'' ''D''" "\<not> areConnected demo_graph ''A'' ''D''"
    unfolding demo_graph_eq by code_simp+
  from save_load_connectivity [OF inv valid, of empty_graph] inv valid saved c
  show ?thesis by (simp add: list_all_iff)
qed

text \<open>Claim C9 as stated fails for a name with a colon: the Person \<open>a:b\<close> with the friend
  \<open>c\<close> is saved as the line \<open>a:b: c\<close>, which loads as a Person \<open>a\<close> with the friends \<open>b:\<close> and
  \<open>c\<close>; after the reload \<open>a\<close> and \<open>c\<close> are connected, before they were not.\<close>

theorem save_load_colon_counterexample:
  "graph_invariant colon_graph \<and>
   \<not> areConnected colon_graph ''a'' ''c'' \<and>
   areConnected (loadFromFile colon_graph (saveToFile colon_graph)) ''a'' ''c''"
proof -
  have inv: "graph_invariant colon_graph"
    unfolding colon_graph_def by (rule inv_run [OF inv_empty])
  have eq: "colon_graph = \<lparr>nodes = [Node ''a:b'', Node ''c''],
      edgeList = [Edge (Node ''a:b'') (Node ''c'')]\<rparr>"
    unfolding colon_graph_def by code_simp
  have "\<not> areConnected colon_graph ''a'' ''c''"
    unfolding eq by code_simp
  moreover have "areConnected (loadFromFile colon_graph (saveToFile colon_graph)) ''a'' ''c''"
    unfolding eq by code_simp
  ultimately show ?thesis using inv by simp
qed


section \<open>\<open>shortestPath\<close> returns a shortest path\<close>

text \<open>Claim C5. In a store that satisfies the invariant (with at most \<open>INT_MAX\<close> Persons, the
  range of the \<open>int\<close> indices), \<open>shortestPath from to\<close> returns; the result is empty exactly
  when \<open>from\<close> or \<open>to\<close> is not a present Person or no path joins them; otherwise it is a path
  from \<open>from\<close> to \<open>to\<close> (first element \<open>from\<close>, last element \<open>to\<close>, consecutive names
  connected by a Friendship) and no path from \<open>from\<close> to \<open>to\<close> is shorter.\<close>

theorem shortestPath_correct:
  assumes wf: "graph_invariant g" and small: "int (length (nodes g)) \<le> INT_MAX"
  shows "\<exists>r. shortestPath g from to = Some r \<and>
     (r = [] \<longleftrightarrow> \<not> nodeExists g (Node from) \<or> \<not> nodeExists g (Node to) \<or>
                 \<not> (\<exists>p. is_path g from to p)) \<and>
     (r \<noteq> [] \<longrightarrow> is_path g from to r \<and> (\<forall>p. is_path g from to p \<longrightarrow> length r \<le> length p))"
proof (cases "nodeExists g (Node from) \<and> nodeExists g (Node to)")
  case False
  then show ?thesis by (auto simp: shortestPath_def)
next
  case True
  let ?ns = "nodes g"
  let ?s = "pos ?ns (Node from)" and ?e = "pos ?ns (Node to)"
  from True have ex: "nodeExists g (Node from)" "nodeExists g (Node to)" by simp_all
  then have mem: "Node from \<in> set ?ns" "Node to \<in> set ?ns" by (simp_all add: nodeExists_iff)
  have s: "?s < length ?ns" and e: "?e < length ?ns" by (simp_all add: pos_less mem)
  have ns: "?ns ! ?s = Node from" and ne: "?ns ! ?e = Node to" by (simp_all add: nth_pos mem)
  let ?d0 = "(replicate (length ?ns) INT_MAX)[?s := 0]"
  have inv0: "bfs_inv g ?s (replicate (length ?ns) (-1)) ?d0 [?s]" by (rule bfs_inv_init [OF s])
  have tgt0: "seen ?d0 ?e \<longrightarrow> ?e \<in> set [?s]"
    using s by (auto simp: seen_def nth_list_update split: if_splits)
  from bfs_loop_result [OF wf small inv0 tgt0]
  obtain found parent where
    loop: "bfs_loop g (int ?e) (replicate (length ?ns) (-1)) ?d0 (map int [?s]) = Some (found, parent)"
    and post: "if found then \<exists>d' q'. bfs_inv g ?s parent d' (?e # q')
               else \<exists>d'. bfs_inv g ?s parent d' [] \<and> \<not> seen d' ?e" by blast
  have walk: "Node to \<in> set ?ns \<and> seen d (pos ?ns (Node to)) \<and> d ! ?e \<le> int (length p) - 1"
    if inv: "bfs_inv g ?s parent d Q" and p: "is_path g from to p"
      and Q: "\<forall>u. seen d u \<longrightarrow> d ! u < int (length p) - 1 \<longrightarrow> u \<notin> set Q" for d Q p
  proof -
    from p obtain p' where p': "p = from # p'" "last (from # p') = to"
      "successively (areConnected g) (from # p')"
      by (cases p) (auto simp: is_path_def)
    from bfs_inv_start [OF inv] have st: "seen d ?s" "d ! ?s = 0" by simp_all
    from walk_seen [OF wf inv p'(3) mem(1) st(1)] Q p'(1,2) st(2)
    show ?thesis by simp
  qed
  show ?thesis
  proof (cases found)
    case False
    with post obtain d' where inv: "bfs_inv g ?s parent d' []" and unseen: "\<not> seen d' ?e" by auto
    have "\<not> is_path g from to p" for p
      using walk [OF inv, of p] unseen by auto
    moreover have "shortestPath g from to = Some []"
      using loop False by (simp add: shortestPath_unfold [OF wf ex])
    ultimately show ?thesis by simp
  next
    case True
    with post obtain d' q' where inv: "bfs_inv g ?s parent d' (?e # q')" by auto
    from bfs_inv_queue_seen [OF inv, of ?e] have se: "seen d' ?e" by simp
    from follow_parents_chain [OF inv se, of "[]"]
    obtain ch where ch: "follow_parents parent (int ?e) [] = Some (map int ch)"
      "ch \<noteq> []" "hd ch = ?e" "last ch = ?s" "int (length ch) = d' ! ?e + 1"
      "\<forall>x \<in> set ch. x < length ?ns" "successively (\<lambda>a b. adj g b a) ch" by auto
    define r where "r = map (\<lambda>x. getName (?ns ! x)) (rev ch)"
    have names: "path_names ?ns (rev (map int ch)) = Some r"
      using path_names_map [of "rev ch" ?ns] ch(6) by (simp add: r_def rev_map)
    have res: "shortestPath g from to = Some r"
      using loop True ch(1) names by (simp add: shortestPath_unfold [OF wf ex])
    have r1: "r \<noteq> []" using ch(2) by (simp add: r_def)
    have r2: "hd r = from"
      using ch(2,4) ns by (simp add: r_def hd_map hd_rev)
    have r3: "last r = to"
      using ch(2,3) ne by (simp add: r_def last_map last_rev)
    have r4: "successively (areConnected g) r"
      unfolding r_def by (rule successively_adj_names [OF ch(7)])
    have r5: "int (length r) = d' ! ?e + 1" using ch(5) by (simp add: r_def)
    have path: "is_path g from to r" using r1 r2 r3 r4 by (simp add: is_path_def)
    have minimal: "length r \<le> length p" if p: "is_path g from to p" for p
    proof (rule ccontr)
      assume "\<not> length r \<le> length p"
      with r5 have short: "int (length p) - 1 < d' ! ?e" by simp
      have "\<forall>u. seen d' u \<longrightarrow> d' ! u < int (length p) - 1 \<longrightarrow> u \<notin> set (?e # q')"
        using bfs_inv_head_min [OF inv] short by fastforce
      from walk [OF inv p this] short show False by simp
    qed
    from res r1 path minimal ex show ?thesis by auto
  qed
qed

theorem shortestPath_correct_witness:
  "graph_invariant demo_graph \<and> int (length (nodes demo_graph)) \<le> INT_MAX \<and>
   shortestPath demo_graph ''A'' ''D'' = Some [''A'', ''C'', ''D''] \<and>
   is_path demo_graph ''A'' ''D'' [''A'', ''C'', ''D''] \<and>
   \<not> (\<exists>p. is_path demo_graph ''A'' ''D'' p \<and> length p < 3)"
proof -
  have inv: "graph_invariant demo_graph"
    unfolding demo_graph_def by (rule inv_run [OF inv_empty])
  have small: "int (length (nodes demo_graph)) \<le> INT_MAX"
    by (simp add: demo_graph_eq INT_MAX_def)
  have run: "shortestPath demo_graph ''A'' ''D'' = Some [''A'', ''C'', ''D'']"
    unfolding demo_graph_eq by code_simp
  from shortestPath_correct [OF inv small, of "''A''" "''D''"] run
  have "is_path demo_graph ''A'' ''D'' [''A'', ''C'', ''D'']"
    and "\<forall>p. is_path demo_graph ''A'' ''D'' p \<longrightarrow> 3 \<le> length p" by auto
  with inv small run show ?thesis by (auto simp: not_less)
qed

section \<open>Which shortest path is returned\<close>

text \<open>Claim C4, as amended. \<open>shortestPath from to\<close> returns the path found by the breadth-first
  search that expands the neighbors of each dequeued Person in the order of \<open>getFriends\<close>,
  that is, in the order in which the Friendships were inserted (claim C10), in a store that
  satisfies the invariant and has at most \<open>INT_MAX\<close> Persons: both return, with the same
  sequence.\<close>

theorem shortestPath_friend_order:
  assumes wf: "graph_invariant g" and small: "int (length (nodes g)) \<le> INT_MAX"
  shows "\<exists>r. shortestPath g from to = Some r \<and>
             spec_shortestPath (getFriends g) g from to = Some r"
proof (cases "nodeExists g (Node from) \<and> nodeExists g (Node to)")
  case False
  then have "shortestPath g from to = Some []"
    and "spec_shortestPath (getFriends g) g from to = Some []"
    by (auto simp: shortestPath_def spec_shortestPath_def nodeExists_iff)
  then show ?thesis by simp
next
  case True
  let ?ns = "nodes g"
  let ?s = "pos ?ns (Node from)" and ?e = "pos ?ns (Node to)"
  from True have ex: "nodeExists g (Node from)" "nodeExists g (Node to)" by simp_all
  then have mem: "Node from \<in> set ?ns" "Node to \<in> set ?ns" by (simp_all add: nodeExists_iff)
  have s: "?s < length ?ns" and e: "?e < length ?ns" by (simp_all add: pos_less mem)
  have ns: "?ns ! ?s = Node from" and ne: "?ns ! ?e = Node to" by (simp_all add: nth_pos mem)
  let ?d0 = "(replicate (length ?ns) INT_MAX)[?s := 0]"
  let ?p0 = "replicate (length ?ns) (-1 :: int)"
  have inv0: "bfs_inv g ?s ?p0 ?d0 [?s]" by (rule bfs_inv_init [OF s])
  have seen0: "seen ?d0 i \<longleftrightarrow> i = ?s" for i
    using s by (auto simp: seen_def nth_list_update INT_MAX_def)
  have rel0: "bfs_rel ?ns ?p0 ?d0 Map.empty {Node from}"
    unfolding bfs_rel_def using ns by (auto simp: seen0)
  have tgt0: "seen ?d0 ?e \<longrightarrow> ?e \<in> set [?s]" by (simp add: seen0)
  from bfs_sim [OF wf small e inv0 rel0 tgt0]
  obtain found parent where
    loop: "bfs_loop g (int ?e) ?p0 ?d0 (map int [?s]) = Some (found, parent)"
    and post: "if found
       then \<exists>d' Q pmap' visited'.
              bfs_inv g ?s parent d' Q \<and> seen d' ?e \<and> bfs_rel ?ns parent d' pmap' visited' \<and>
              spec_bfs (getFriends g) (?ns ! ?e) Map.empty {Node from} (map (nth ?ns) [?s])
                = Some (Some pmap')
       else spec_bfs (getFriends g) (?ns ! ?e) Map.empty {Node from} (map (nth ?ns) [?s]) = Some None"
    by blast
  show ?thesis
  proof (cases found)
    case False
    with post have "spec_bfs (getFriends g) (Node to) Map.empty {Node from} [Node from] = Some None"
      by (simp add: ns ne)
    then have "spec_shortestPath (getFriends g) g from to = Some []"
      using mem by (simp add: spec_shortestPath_def)
    moreover have "shortestPath g from to = Some []"
      using loop False by (simp add: shortestPath_unfold [OF wf ex])
    ultimately show ?thesis by simp
  next
    case True
    with post obtain d' Q pmap' visited' where
      inv: "bfs_inv g ?s parent d' Q" and se: "seen d' ?e"
      and rel: "bfs_rel ?ns parent d' pmap' visited'"
      and sb: "spec_bfs (getFriends g) (Node to) Map.empty {Node from} [Node from] = Some (Some pmap')"
      by (auto simp: ns ne)
    from trace_sim [OF inv rel se, of "[]" "[]"]
    obtain ch where ch: "follow_parents parent (int ?e) [] = Some (map int ch)"
      "\<forall>x \<in> set ch. x < length ?ns"
      "spec_trace pmap' (Node to) [] = Some (map (nth ?ns) (rev ch))"
      by (auto simp: ne)
    have names: "path_names ?ns (rev (map int ch)) = Some (map (\<lambda>x. getName (?ns ! x)) (rev ch))"
      using path_names_map [of "rev ch" ?ns] ch(2) by (simp add: rev_map)
    have "shortestPath g from to = Some (map (\<lambda>x. getName (?ns ! x)) (rev ch))"
      using loop True ch(1) names by (simp add: shortestPath_unfold [OF wf ex])
    moreover have "spec_shortestPath (getFriends g) g from to
                     = Some (map (\<lambda>x. getName (?ns ! x)) (rev ch))"
      using mem sb ch(3) by (simp add: spec_shortestPath_def comp_def)
    ultimately show ?thesis by simp
  qed
qed

theorem shortestPath_friend_order_witness:
  "graph_invariant demo_graph \<and> int (length (nodes demo_graph)) \<le> INT_MAX \<and>
   getFriends demo_graph (Node ''A'') = [Node ''C'', Node ''B''] \<and>
   shortestPath demo_graph ''A'' ''D'' = Some [''A'', ''C'', ''D''] \<and>
   spec_shortestPath (getFriends demo_graph) demo_graph ''A'' ''D'' = Some [''A'', ''C'', ''D'']"
proof -
  have inv: "graph_invariant demo_graph"
    unfolding demo_graph_def by (rule inv_run [OF inv_empty])
  have small: "int (length (nodes demo_graph)) \<le> INT_MAX"
    by (simp add: demo_graph_eq INT_MAX_def)
  have fr: "getFriends demo_graph (Node ''A'') = [Node ''C'', Node ''B'']"
    unfolding demo_graph_eq by code_simp
  have run: "shortestPath demo_graph ''A'' ''D'' = Some [''A'', ''C'', ''D'']"
    unfolding demo_graph_eq by code_simp
  from shortestPath_friend_order [OF inv small, of "''A''" "''D''"] inv small fr run
  show ?thesis by simp
qed

text \<open>Claim C4 as stated fails. In the store with Persons A, B, C, D and Friendships inserted
  as A-C, A-B, B-D, C-D there are two shortest paths from A to D. Expanding neighbors in
  Person insertion order finds A, B, D; the code returns A, C, D.\<close>

theorem shortestPath_person_order_counterexample:
  "graph_invariant demo_graph \<and>
   is_path demo_graph ''A'' ''D'' [''A'', ''B'', ''D''] \<and>
   is_path demo_graph ''A'' ''D'' [''A'', ''C'', ''D''] \<and>
   friends_in_person_order demo_graph (Node ''A'') = [Node ''B'', Node ''C''] \<and>
   spec_shortestPath (friends_in_person_order demo_graph) demo_graph ''A'' ''D''
     = Some [''A'', ''B'', ''D''] \<and>
   shortestPath demo_graph ''A'' ''D'' = Some [''A'', ''C'', ''D'']"
proof -
  have "graph_invariant demo_graph"
    unfolding demo_graph_def by (rule inv_run [OF inv_empty])
  moreover have "is_path demo_graph ''A'' ''D'' [''A'', ''B'', ''D'']"
    "is_path demo_graph ''A'' ''D'' [''A'', ''C'', ''D'']"
    unfolding demo_graph_eq is_path_def by code_simp+
  moreover have "friends_in_person_order demo_graph (Node ''A'') = [Node ''B'', Node ''C'']"
    unfolding demo_graph_eq by code_simp
  moreover have "spec_shortestPath (friends_in_person_order demo_graph) demo_graph ''A'' ''D''
     = Some [''A'', ''B'', ''D'']"
    unfolding demo_graph_eq by code_simp
  moreover have "shortestPath demo_graph ''A'' ''D'' = Some [''A'', ''C'', ''D'']"
    unfolding demo_graph_eq by code_simp
  ultimately show ?thesis by simp
qed

end
